theory Spec2Isabelle
  imports Main "HOL-Library.Sublist"
begin

section \<open>Python values, exceptions and equality\<close>

text \<open>
  The event-distribution core of the client (\<^verbatim>\<open>src/aioari/client.py\<close>) is embedded
  function by function.  Exceptions are values; \<open>BaseOnly\<close> stands for the classes that
  derive from \<^verbatim>\<open>BaseException\<close> but not from \<^verbatim>\<open>Exception\<close> (\<^verbatim>\<open>SystemExit\<close>,
  \<^verbatim>\<open>KeyboardInterrupt\<close>, \<^verbatim>\<open>asyncio.CancelledError\<close>), which \<^verbatim>\<open>except Exception\<close> lets
  through; \<open>UserException\<close> stands for any other class deriving from \<^verbatim>\<open>Exception\<close>.
\<close>

datatype exn = ValueError | TypeError | KeyError | AttributeError | JSONDecodeError
  | UserException nat | BaseOnly nat

fun is_Exception :: "exn \<Rightarrow> bool" where
  "is_Exception (BaseOnly n) = False"
| "is_Exception e = True"

text \<open>
  A callback is either a function supplied by the caller (compared by identity, here a
  number) or one \<^verbatim>\<open>extract_objects\<close> closure made by \<^verbatim>\<open>on_object_event\<close>; a closure
  carries a serial number (its identity: every call of \<^verbatim>\<open>on_object_event\<close> makes a new
  function object) and what it captured: \<^verbatim>\<open>event_cb\<close>, \<^verbatim>\<open>factory_fn\<close> and \<^verbatim>\<open>obj_fields\<close>.
\<close>

datatype callback = PyFunc nat | ExtractObjects nat callback nat "string list"

text \<open>
  Python values as far as the client looks at them: what \<^verbatim>\<open>json.loads\<close> returns
  (numbers restricted to integers), tuples, callables and opaque objects compared by
  identity.  A dict is an association list in insertion order, with distinct keys.
\<close>

datatype pyval = PNone | PBool bool | PInt int | PStr string
  | PList "pyval list" | PTuple "pyval list" | PDict "(string \<times> pyval) list"
  | PCallable callback | PObj nat

text \<open>
  Python's \<^verbatim>\<open>==\<close>: \<^verbatim>\<open>bool\<close> is a subclass of \<^verbatim>\<open>int\<close> (\<^verbatim>\<open>True == 1\<close>); a string never
  equals a tuple or a dict holding it; lists and tuples compare elementwise; two dicts are
  equal when each entry of one has an entry of the other with the same key and an equal
  value.
\<close>

fun py_eq :: "pyval \<Rightarrow> pyval \<Rightarrow> bool" where
  "py_eq PNone y = (y = PNone)"
| "py_eq (PBool a) y =
     (case y of PBool b \<Rightarrow> a = b | PInt n \<Rightarrow> (if a then 1 else 0) = n | _ \<Rightarrow> False)"
| "py_eq (PInt m) y =
     (case y of PBool b \<Rightarrow> m = (if b then 1 else 0) | PInt n \<Rightarrow> m = n | _ \<Rightarrow> False)"
| "py_eq (PStr s) y = (y = PStr s)"
| "py_eq (PList xs) y = (case y of PList ys \<Rightarrow> list_all2 py_eq xs ys | _ \<Rightarrow> False)"
| "py_eq (PTuple xs) y = (case y of PTuple ys \<Rightarrow> list_all2 py_eq xs ys | _ \<Rightarrow> False)"
| "py_eq (PDict a) y =
     (case y of
        PDict b \<Rightarrow>
          list_all (\<lambda>(k, v). list_ex (\<lambda>(k', w). k = k' \<and> py_eq v w) b) a \<and>
          list_all (\<lambda>(k', w). list_ex (\<lambda>(k, v). k = k' \<and> py_eq v w) a) b
      | _ \<Rightarrow> False)"
| "py_eq (PCallable f) y = (y = PCallable f)"
| "py_eq (PObj i) y = (y = PObj i)"

text \<open>Truth value testing (\<^verbatim>\<open>if x:\<close>) and hashability (\<^verbatim>\<open>dict.get(x)\<close>).\<close>

fun py_truthy :: "pyval \<Rightarrow> bool" where
  "py_truthy PNone = False"
| "py_truthy (PBool b) = b"
| "py_truthy (PInt n) = (n \<noteq> 0)"
| "py_truthy (PStr s) = (s \<noteq> [])"
| "py_truthy (PList xs) = (xs \<noteq> [])"
| "py_truthy (PTuple xs) = (xs \<noteq> [])"
| "py_truthy (PDict d) = (d \<noteq> [])"
| "py_truthy (PCallable f) = True"
| "py_truthy (PObj i) = True"

fun hashable :: "pyval \<Rightarrow> bool" where
  "hashable (PList xs) = False"
| "hashable (PDict d) = False"
| "hashable (PTuple xs) = list_all hashable xs"
| "hashable v = True"

section \<open>Listener registrations and the registry\<close>

text \<open>
  A registration is the tuple \<^verbatim>\<open>(event_cb, event_obj, args, kwargs, as_task)\<close> that
  \<^verbatim>\<open>on_event\<close> appends.  \<^verbatim>\<open>event_obj\<close> and \<^verbatim>\<open>as_task\<close> are stored as they were
  passed, whatever their type; \<^verbatim>\<open>args\<close> is always a tuple and \<^verbatim>\<open>kwargs\<close> a dict.
\<close>

datatype listener = Listener (callback: callback) (event_obj: pyval) (args: "pyval list")
  (kwargs: "(string \<times> pyval) list") (as_task: pyval)

fun items :: "listener \<Rightarrow> pyval list" where
  "items (Listener cb eo a kw t) = [PCallable cb, eo, PTuple a, PDict kw, t]"

text \<open>\<^verbatim>\<open>a == b\<close> on two registration tuples, and \<^verbatim>\<open>x in item\<close> on one.\<close>

definition tuple_eq :: "listener \<Rightarrow> listener \<Rightarrow> bool" where
  "tuple_eq a b = list_all2 py_eq (items a) (items b)"

definition py_in :: "pyval \<Rightarrow> listener \<Rightarrow> bool" where
  "py_in x item = list_ex (\<lambda>c. py_eq c x) (items item)"

type_synonym registry = "(string \<times> listener list) list"

text \<open>\<^verbatim>\<open>self.event_listeners.get(k, [])\<close> for a string key.\<close>

definition get_listeners :: "registry \<Rightarrow> string \<Rightarrow> listener list" where
  "get_listeners reg k = (case map_of reg k of None \<Rightarrow> [] | Some l \<Rightarrow> l)"

text \<open>\<^verbatim>\<open>d[k] = v\<close>: the entry is replaced in place, a new key goes last.\<close>

fun dict_set :: "('k \<times> 'v) list \<Rightarrow> 'k \<Rightarrow> 'v \<Rightarrow> ('k \<times> 'v) list" where
  "dict_set [] k v = [(k, v)]"
| "dict_set ((k', v') # d) k v = (if k' = k then (k, v) # d else (k', v') # dict_set d k v)"

text \<open>\<^verbatim>\<open>list.remove(x)\<close>: the first element equal to \<open>x\<close> goes; \<^verbatim>\<open>ValueError\<close> if none is.\<close>

fun list_remove :: "listener \<Rightarrow> listener list \<Rightarrow> exn + listener list" where
  "list_remove x [] = Inl ValueError"
| "list_remove x (e # es) =
     (if tuple_eq e x then Inr es
      else (case list_remove x es of Inl err \<Rightarrow> Inl err | Inr es' \<Rightarrow> Inr (e # es')))"

section \<open>Callables of the environment\<close>

text \<open>
  What a call of a listener gives back: it raises, or it returns a value that has no
  \<^verbatim>\<open>__await__\<close> (\<open>Returned None\<close>) or an awaitable.  An awaitable is a coroutine or not
  (\<^verbatim>\<open>asyncio.create_task\<close> raises \<^verbatim>\<open>TypeError\<close> on anything but a coroutine), and its
  body, once run, may change the registry and may raise.  The caller's functions and the
  object factories are parameters of the model; a function may change the registry
  (register and unregister listeners).  The message itself is not changed by a listener
  in this model.
\<close>

datatype awaitable =
  Awaitable (is_coroutine: bool) (body: "registry \<Rightarrow> exn option \<times> registry")

datatype call_result = Raised exn | Returned "awaitable option"

record env =
  call_fn :: "nat \<Rightarrow> pyval list \<Rightarrow> (string \<times> pyval) list \<Rightarrow> registry
    \<Rightarrow> call_result \<times> registry"
  factory_fn :: "nat \<Rightarrow> pyval \<Rightarrow> exn + pyval"
  json_loads :: "string \<Rightarrow> exn + pyval"

section \<open>The client\<close>

datatype websocket =
  WebSocket (ws_id: nat) (peername: "pyval list option") (close_raises: "exn option")

datatype log_entry = UnknownMessageType | InvalidEvent string

text \<open>
  The fields of \<^verbatim>\<open>Client\<close> that the event core uses, and the observations made on a
  run: the closures created so far (the supply of their serial numbers), the
  registrations invoked, the exceptions handed to \<^verbatim>\<open>exception_handler\<close>, the coroutines
  given to \<^verbatim>\<open>asyncio.create_task\<close>, the warnings and errors logged, the handles closed
  and whether \<^verbatim>\<open>swagger.close()\<close> has run.  \<^verbatim>\<open>event_models\<close> maps an event type to the
  \<^verbatim>\<open>properties\<close> of its model: field name to declared type.
\<close>

record client =
  event_models :: "(string \<times> (string \<times> string) list) list"
  event_listeners :: registry
  exception_handler :: "exn \<Rightarrow> registry \<Rightarrow> exn option \<times> registry"
  websockets :: "websocket list"
  closures :: nat
  invoked :: "listener list"
  handled :: "exn list"
  tasks :: "awaitable list"
  logged :: "log_entry list"
  closed :: "nat list"
  swagger_closed :: bool

section \<open>Object extraction (\<^verbatim>\<open>extract_objects\<close>)\<close>

datatype extracted = Single "pyval option" | Mapping "(string \<times> pyval) list"

text \<open>
  The dict comprehension
  \<^verbatim>\<open>{f: factory_fn(self, event[f]) for f in obj_fields if event.get(f)}\<close>.
\<close>

fun comprehend :: "(pyval \<Rightarrow> exn + pyval) \<Rightarrow> (string \<times> pyval) list \<Rightarrow> string list
    \<Rightarrow> (string \<times> pyval) list \<Rightarrow> exn + (string \<times> pyval) list" where
  "comprehend fac ev [] acc = Inr acc"
| "comprehend fac ev (f # fs) acc =
     (case map_of ev f of
        None \<Rightarrow> comprehend fac ev fs acc
      | Some v \<Rightarrow>
          if py_truthy v
          then (case fac v of
                  Inl e \<Rightarrow> Inl e
                | Inr obj \<Rightarrow> comprehend fac ev fs (dict_set acc f obj))
          else comprehend fac ev fs acc)"

text \<open>
  The value \<^verbatim>\<open>obj\<close> that \<^verbatim>\<open>extract_objects\<close> passes to \<^verbatim>\<open>event_cb\<close>: collapsed to one
  object (or \<^verbatim>\<open>None\<close>) when \<^verbatim>\<open>len(obj_fields) == 1\<close>.  \<^verbatim>\<open>event.get\<close> on a value that is
  not a dict raises \<^verbatim>\<open>AttributeError\<close> at the first field.
\<close>

definition extract_objects :: "env \<Rightarrow> nat \<Rightarrow> string list \<Rightarrow> pyval \<Rightarrow> exn + extracted" where
  "extract_objects env fac obj_fields event =
     (case event of
        PDict ev \<Rightarrow>
          (case comprehend (factory_fn env fac) ev obj_fields [] of
             Inl e \<Rightarrow> Inl e
           | Inr obj \<Rightarrow>
               Inr (if length obj_fields = 1
                    then (case obj of [] \<Rightarrow> Single None | (k, v) # rest \<Rightarrow> Single (Some v))
                    else Mapping obj))
      | _ \<Rightarrow> if obj_fields = [] then Inr (Mapping []) else Inl AttributeError)"

fun obj_arg :: "extracted \<Rightarrow> pyval" where
  "obj_arg (Single None) = PNone"
| "obj_arg (Single (Some v)) = v"
| "obj_arg (Mapping m) = PDict m"

text \<open>
  Calling a callback with positional and keyword arguments.  The closure computes
  \<^verbatim>\<open>obj\<close> and returns \<^verbatim>\<open>event_cb(obj, event, *args, **kwargs)\<close>.
\<close>

fun invoke :: "env \<Rightarrow> callback \<Rightarrow> pyval list \<Rightarrow> (string \<times> pyval) list \<Rightarrow> registry
    \<Rightarrow> call_result \<times> registry" where
  "invoke env (PyFunc n) pos kw reg = call_fn env n pos kw reg"
| "invoke env (ExtractObjects serial event_cb fac obj_fields) pos kw reg =
     (case pos of
        [] \<Rightarrow> (Raised TypeError, reg)
      | event # rest \<Rightarrow>
          (case extract_objects env fac obj_fields event of
             Inl e \<Rightarrow> (Raised e, reg)
           | Inr obj \<Rightarrow> invoke env event_cb (obj_arg obj # event # rest) kw reg))"

section \<open>Dispatch (\<^verbatim>\<open>process_ws\<close>)\<close>

text \<open>
  \<^verbatim>\<open>except Exception as e: self.exception_handler(e)\<close>: an exception that is not an
  \<^verbatim>\<open>Exception\<close> passes through, and so does whatever the handler raises.
\<close>

definition on_exception :: "exn \<Rightarrow> client \<Rightarrow> exn option \<times> client" where
  "on_exception e st =
     (if is_Exception e
      then (case exception_handler st e (event_listeners st) of
              (r, reg) \<Rightarrow> (r, st\<lparr>event_listeners := reg, handled := handled st @ [e]\<rparr>))
      else (Some e, st))"

text \<open>The body of the loop over the resolved listeners.\<close>

definition run_listener :: "env \<Rightarrow> (string \<times> pyval) list \<Rightarrow> listener \<Rightarrow> client
    \<Rightarrow> exn option \<times> client" where
  "run_listener env msg l st =
     (case invoke env (callback l) (PDict msg # args l) (kwargs l) (event_listeners st) of
        (res, reg1) \<Rightarrow>
          (let st1 = st\<lparr>event_listeners := reg1, invoked := invoked st @ [l]\<rparr> in
           case res of
             Raised e \<Rightarrow> on_exception e st1
           | Returned None \<Rightarrow> (None, st1)
           | Returned (Some cb) \<Rightarrow>
               if py_truthy (as_task l)
               then (if is_coroutine cb
                     then (None, st1\<lparr>tasks := tasks st1 @ [cb]\<rparr>)
                     else on_exception TypeError st1)
               else (case body cb (event_listeners st1) of
                       (None, reg2) \<Rightarrow> (None, st1\<lparr>event_listeners := reg2\<rparr>)
                     | (Some e, reg2) \<Rightarrow> on_exception e (st1\<lparr>event_listeners := reg2\<rparr>))))"

fun run_listeners :: "env \<Rightarrow> (string \<times> pyval) list \<Rightarrow> listener list \<Rightarrow> client
    \<Rightarrow> exn option \<times> client" where
  "run_listeners env msg [] st = (None, st)"
| "run_listeners env msg (l # ls) st =
     (case run_listener env msg l st of
        (Some e, st') \<Rightarrow> (Some e, st')
      | (None, st') \<Rightarrow> run_listeners env msg ls st')"

text \<open>
  \<^verbatim>\<open>list(self.event_listeners.get(msg['type'], [])) + list(self.event_listeners.get('*', []))\<close>:
  the keys of the registry are strings, so another hashable value finds nothing, and an
  unhashable one (a JSON array or object) makes \<^verbatim>\<open>dict.get\<close> raise \<^verbatim>\<open>TypeError\<close>.
\<close>

definition resolve :: "registry \<Rightarrow> pyval \<Rightarrow> exn + listener list" where
  "resolve reg t =
     (if hashable t
      then Inr ((case t of PStr s \<Rightarrow> get_listeners reg s | _ \<Rightarrow> []) @ get_listeners reg ''*'')
      else Inl TypeError)"

text \<open>\<^verbatim>\<open>msg.get('channel').get('id')\<close>\<close>

definition gc_ident :: "(string \<times> pyval) list \<Rightarrow> exn + pyval" where
  "gc_ident msg =
     (case map_of msg ''channel'' of
        None \<Rightarrow> Inl AttributeError
      | Some c \<Rightarrow>
          (case c of
             PDict ch \<Rightarrow> Inr (case map_of ch ''id'' of None \<Rightarrow> PNone | Some v \<Rightarrow> v)
           | _ \<Rightarrow> Inl AttributeError))"

text \<open>
  \<^verbatim>\<open>[item for item in self.event_listeners[i] if msg.get('channel').get('id') in item]\<close>:
  the condition is evaluated once for each item, so not at all on an empty list.
\<close>

fun gc_select :: "(string \<times> pyval) list \<Rightarrow> listener list \<Rightarrow> exn + listener list" where
  "gc_select msg [] = Inr []"
| "gc_select msg (item # rest) =
     (case gc_ident msg of
        Inl e \<Rightarrow> Inl e
      | Inr x \<Rightarrow>
          (case gc_select msg rest of
             Inl e \<Rightarrow> Inl e
           | Inr sel \<Rightarrow> Inr (if py_in x item then item # sel else sel)))"

text \<open>\<^verbatim>\<open>for o in sel: self.event_listeners[i].remove(o)\<close>\<close>

fun remove_each :: "listener list \<Rightarrow> listener list \<Rightarrow> exn option \<times> listener list" where
  "remove_each [] l = (None, l)"
| "remove_each (x # xs) l =
     (case list_remove x l of
        Inl e \<Rightarrow> (Some e, l)
      | Inr l' \<Rightarrow> remove_each xs l')"

definition gc_list :: "(string \<times> pyval) list \<Rightarrow> listener list \<Rightarrow> exn option \<times> listener list"
  where
  "gc_list msg l =
     (case gc_select msg l of
        Inl e \<Rightarrow> (Some e, l)
      | Inr sel \<Rightarrow> remove_each sel l)"

text \<open>
  \<^verbatim>\<open>for i in tuple(self.event_listeners.keys()): ...\<close>: every key of the dict with its own
  list, in insertion order.
\<close>

fun gc_entries :: "(string \<times> pyval) list \<Rightarrow> registry \<Rightarrow> exn option \<times> registry" where
  "gc_entries msg [] = (None, [])"
| "gc_entries msg ((i, l) # rest) =
     (case gc_list msg l of
        (Some e, l') \<Rightarrow> (Some e, (i, l') # rest)
      | (None, l') \<Rightarrow>
          (case gc_entries msg rest of (r, rest') \<Rightarrow> (r, (i, l') # rest')))"

definition process_ws :: "env \<Rightarrow> (string \<times> pyval) list \<Rightarrow> client \<Rightarrow> exn option \<times> client"
  where
  "process_ws env msg st =
     (case map_of msg ''type'' of
        None \<Rightarrow> (Some KeyError, st)
      | Some t \<Rightarrow>
          (case resolve (event_listeners st) t of
             Inl e \<Rightarrow> (Some e, st)
           | Inr listeners \<Rightarrow>
               (case run_listeners env msg listeners st of
                  (Some e, st1) \<Rightarrow> (Some e, st1)
                | (None, st1) \<Rightarrow>
                    if py_eq t (PStr ''ChannelDestroyed'')
                    then (case gc_entries msg (event_listeners st1) of
                            (r, reg) \<Rightarrow> (r, st1\<lparr>event_listeners := reg\<rparr>))
                    else (None, st1))))"

text \<open>
  What the event loop does later with a coroutine given to \<^verbatim>\<open>asyncio.create_task\<close>: it
  runs the body; an exception of the body is kept in the task object.  The client
  attaches no callback to the task and never awaits it, so nothing is handed to
  \<^verbatim>\<open>exception_handler\<close>.
\<close>

definition run_task :: "awaitable \<Rightarrow> client \<Rightarrow> exn option \<times> client" where
  "run_task cb st =
     (case body cb (event_listeners st) of (r, reg) \<Rightarrow> (r, st\<lparr>event_listeners := reg\<rparr>))"

section \<open>The read loop (\<^verbatim>\<open>__run\<close>)\<close>

datatype ws_msg_type = WS_CONTINUATION | WS_TEXT | WS_BINARY | WS_PING | WS_PONG
  | WS_CLOSE | WS_CLOSING | WS_CLOSED | WS_ERROR

text \<open>
  What \<^verbatim>\<open>ws.receive()\<close> returns: \<^verbatim>\<open>None\<close>, or aiohttp's \<^verbatim>\<open>WSMessage\<close>, the named
  tuple \<^verbatim>\<open>(type, data, extra)\<close>.
\<close>

datatype ws_message = NoMessage | WSMessage ws_msg_type string "string option"

text \<open>
  The right operand of \<^verbatim>\<open>"Invalid event: %s" % msg\<close>: a tuple gives its items as the
  arguments of the format, any other value is the one argument.
\<close>

fun format_arguments :: "ws_message \<Rightarrow> nat" where
  "format_arguments NoMessage = 1"
| "format_arguments (WSMessage ty data extra) = 3"

text \<open>
  \<^verbatim>\<open>log.error("Invalid event: %s" % msg)\<close>: the format has one conversion, and
  \<^verbatim>\<open>%\<close> raises \<^verbatim>\<open>TypeError\<close> (not all arguments converted) when it is given another
  number of arguments; the line is logged only when the string has been built.
\<close>

definition log_invalid_event :: "ws_message \<Rightarrow> client \<Rightarrow> exn option \<times> client" where
  "log_invalid_event msg st =
     (if format_arguments msg = 1
      then (None, st\<lparr>logged := logged st @
              [InvalidEvent (case msg of NoMessage \<Rightarrow> [] | WSMessage ty data extra \<Rightarrow> data)]\<rparr>)
      else (Some TypeError, st))"

text \<open>
  How the loop ends on a finite sequence of received messages: by \<^verbatim>\<open>return\<close> at
  \<^verbatim>\<open>None\<close>, by \<^verbatim>\<open>break\<close> at a closing message, by an exception that escapes, or not
  at all: it is \<open>Waiting\<close> in \<^verbatim>\<open>ws.receive()\<close> once every message has been processed.
  The warning for a message that is not text passes \<^verbatim>\<open>repr(msg)\<close> as an argument of
  the logging call and does not raise.
\<close>

datatype run_outcome = Eof | Closed | Escaped exn | Waiting

fun run_loop :: "env \<Rightarrow> ws_message list \<Rightarrow> client \<Rightarrow> run_outcome \<times> client" where
  "run_loop env [] st = (Waiting, st)"
| "run_loop env (NoMessage # rest) st = (Eof, st)"
| "run_loop env (WSMessage ty data extra # rest) st =
     (if ty = WS_CLOSED \<or> ty = WS_CLOSING then (Closed, st)
      else if ty \<noteq> WS_TEXT
      then run_loop env rest (st\<lparr>logged := logged st @ [UnknownMessageType]\<rparr>)
      else (case json_loads env data of
              Inl e \<Rightarrow> (Escaped e, st)
            | Inr msg_json \<Rightarrow>
                (case msg_json of
                   PDict msg \<Rightarrow>
                     (case map_of msg ''type'' of
                        None \<Rightarrow>
                          (case log_invalid_event (WSMessage ty data extra) st of
                             (Some e, st') \<Rightarrow> (Escaped e, st')
                           | (None, st') \<Rightarrow> run_loop env rest st')
                      | Some t \<Rightarrow>
                          (case process_ws env msg st of
                             (Some e, st') \<Rightarrow> (Escaped e, st')
                           | (None, st') \<Rightarrow> run_loop env rest st'))
                 | _ \<Rightarrow>
                     (case log_invalid_event (WSMessage ty data extra) st of
                        (Some e, st') \<Rightarrow> (Escaped e, st')
                      | (None, st') \<Rightarrow> run_loop env rest st'))))"

section \<open>Registration (\<^verbatim>\<open>on_event\<close>, \<^verbatim>\<open>on_object_event\<close>)\<close>

text \<open>
  \<^verbatim>\<open>for cb in listeners: if event_cb == cb[0]: listeners.remove(cb)\<close>: the list iterator
  keeps an index into the list that the body shortens, so the element after a removed one
  is not visited.
\<close>

function on_event_scan :: "callback \<Rightarrow> nat \<Rightarrow> listener list \<Rightarrow> exn + listener list" where
  "on_event_scan event_cb i l =
     (if i < length l
      then (if event_cb = callback (l ! i)
            then (case list_remove (l ! i) l of
                    Inl e \<Rightarrow> Inl e
                  | Inr l' \<Rightarrow> on_event_scan event_cb (Suc i) l')
            else on_event_scan event_cb (Suc i) l)
      else Inr l)"
  by pat_completeness auto
termination
proof (relation "measure (\<lambda>(event_cb, i, l). length l - i)")
  have shorter: "length l' < length l" if "list_remove x l = Inr l'" for x l l'
    using that by (induction l arbitrary: l') (auto split: if_splits sum.splits)
  fix event_cb :: callback and i :: nat and l l' :: "listener list"
  assume "i < length l" and "list_remove (l ! i) l = Inr l'"
  then show "((event_cb, Suc i, l'), (event_cb, i, l)) \<in> measure (\<lambda>(event_cb, i, l). length l - i)"
    using shorter [of "l ! i" l l'] by simp
qed auto

declare on_event_scan.simps [simp del]

text \<open>
  \<^verbatim>\<open>on_event\<close>: \<^verbatim>\<open>setdefault\<close>, the scan, then the new tuple is appended.  The handle it
  returns is not part of the state.
\<close>

definition on_event :: "client \<Rightarrow> string \<Rightarrow> callback \<Rightarrow> pyval \<Rightarrow> pyval \<Rightarrow> pyval list
    \<Rightarrow> (string \<times> pyval) list \<Rightarrow> exn + client" where
  "on_event st event_type event_cb eo task a kw =
     (case on_event_scan event_cb 0 (get_listeners (event_listeners st) event_type) of
        Inl e \<Rightarrow> Inl e
      | Inr l \<Rightarrow>
          Inr (st\<lparr>event_listeners :=
                 dict_set (event_listeners st) event_type (l @ [Listener event_cb eo a kw task])\<rparr>))"

text \<open>
  The call \<^verbatim>\<open>self.on_event(event_type, extract_objects, as_task=as_task, *args, **kwargs)\<close>
  of \<^verbatim>\<open>on_object_event\<close> against the signature
  \<^verbatim>\<open>on_event(self, event_type, event_cb, event_obj=None, as_task=False, *args, **kwargs)\<close>:
  the extra positional arguments come third and fourth, so the first one is bound to
  \<^verbatim>\<open>event_obj\<close> and a second one to \<^verbatim>\<open>as_task\<close>, which the keyword gives again
  (\<^verbatim>\<open>TypeError\<close>: multiple values); a keyword \<^verbatim>\<open>event_obj\<close> is bound to the parameter.
  The result is \<^verbatim>\<open>event_obj\<close> and the \<^verbatim>\<open>kwargs\<close> of \<^verbatim>\<open>on_event\<close>; its \<^verbatim>\<open>args\<close> are empty.
\<close>

definition bind_on_event :: "pyval list \<Rightarrow> (string \<times> pyval) list
    \<Rightarrow> exn + pyval \<times> (string \<times> pyval) list" where
  "bind_on_event a kw =
     (if 2 \<le> length a then Inl TypeError
      else if list_ex (\<lambda>k. k \<in> set [''self'', ''event_type'', ''event_cb'', ''as_task''])
                (map fst kw)
      then Inl TypeError
      else (case a of
              [] \<Rightarrow> Inr (case map_of kw ''event_obj'' of None \<Rightarrow> PNone | Some v \<Rightarrow> v,
                        filter (\<lambda>(k, v). k \<noteq> ''event_obj'') kw)
            | x # xs \<Rightarrow>
                if map_of kw ''event_obj'' \<noteq> None then Inl TypeError else Inr (x, kw)))"

text \<open>
  \<^verbatim>\<open>on_object_event\<close>.  An event model is represented by its \<^verbatim>\<open>properties\<close>, so the
  test \<^verbatim>\<open>not event_model\<close> is the test that the event type has no model.
\<close>

definition on_object_event :: "client \<Rightarrow> string \<Rightarrow> callback \<Rightarrow> nat \<Rightarrow> string \<Rightarrow> pyval
    \<Rightarrow> pyval list \<Rightarrow> (string \<times> pyval) list \<Rightarrow> exn + client" where
  "on_object_event st event_type event_cb fac model_id task a kw =
     (case map_of (event_models st) event_type of
        None \<Rightarrow> Inl ValueError
      | Some properties \<Rightarrow>
          (let obj_fields = map fst (filter (\<lambda>(k, v). v = model_id) properties) in
           if obj_fields = [] then Inl ValueError
           else (case bind_on_event a kw of
                   Inl e \<Rightarrow> Inl e
                 | Inr (eo, kw') \<Rightarrow>
                     on_event (st\<lparr>closures := Suc (closures st)\<rparr>) event_type
                       (ExtractObjects (closures st) event_cb fac obj_fields) eo task [] kw')))"

text \<open>
  The clients that the client's own operations on the registry build: a client with an
  empty registry (as \<^verbatim>\<open>init\<close> leaves it), and from there registrations and
  garbage-collection passes.
\<close>

inductive built :: "client \<Rightarrow> bool" where
  init: "event_listeners st = [] \<Longrightarrow> built st"
| registered: "built st \<Longrightarrow> on_event st T cb eo task a kw = Inr st' \<Longrightarrow> built st'"
| collected: "built st \<Longrightarrow> gc_entries msg (event_listeners st) = (r, reg) \<Longrightarrow>
    built (st\<lparr>event_listeners := reg\<rparr>)"

section \<open>Shutdown (\<^verbatim>\<open>close\<close>)\<close>

text \<open>
  \<^verbatim>\<open>get_peer_info\<close>: \<^verbatim>\<open>tuple(info[:2])\<close>, a \<^verbatim>\<open>TypeError\<close> when the peer name is \<^verbatim>\<open>None\<close>.
  The caller unpacks the result into \<^verbatim>\<open>host, port\<close>: \<^verbatim>\<open>ValueError\<close> unless it has two
  items.
\<close>

definition get_peer_info :: "websocket \<Rightarrow> exn + pyval list" where
  "get_peer_info ws = (case peername ws of None \<Rightarrow> Inl TypeError | Some info \<Rightarrow> Inr (take 2 info))"

definition host_port :: "websocket \<Rightarrow> exn + pyval list" where
  "host_port ws =
     (case get_peer_info ws of
        Inl e \<Rightarrow> Inl e
      | Inr hp \<Rightarrow> if length hp = 2 then Inr hp else Inl ValueError)"

text \<open>\<^verbatim>\<open>self.websockets.remove(ws); await ws.close()\<close>\<close>

definition remove_and_close :: "websocket \<Rightarrow> client \<Rightarrow> exn option \<times> client" where
  "remove_and_close ws st =
     (if ws \<in> set (websockets st)
      then (let st1 = st\<lparr>websockets := remove1 ws (websockets st)\<rparr> in
            case close_raises ws of
              None \<Rightarrow> (None, st1\<lparr>closed := closed st1 @ [ws_id ws]\<rparr>)
            | Some e \<Rightarrow> (Some e, st1))
      else (Some KeyError, st))"

text \<open>
  The loop \<^verbatim>\<open>for ws in list(self.websockets)\<close>; both branches of the \<^verbatim>\<open>try\<close> remove
  and close the handle, and only \<^verbatim>\<open>TypeError\<close> is caught.
\<close>

fun close_sockets :: "websocket list \<Rightarrow> client \<Rightarrow> exn option \<times> client" where
  "close_sockets [] st = (None, st)"
| "close_sockets (ws # rest) st =
     (case host_port ws of
        Inl e \<Rightarrow>
          if e = TypeError
          then (case remove_and_close ws st of
                  (Some e', st') \<Rightarrow> (Some e', st')
                | (None, st') \<Rightarrow> close_sockets rest st')
          else (Some e, st)
      | Inr hp \<Rightarrow>
          (case remove_and_close ws st of
             (Some e', st') \<Rightarrow> (Some e', st')
           | (None, st') \<Rightarrow> close_sockets rest st'))"

text \<open>
  \<^verbatim>\<open>close\<close>, given what the unsubscribe request and \<^verbatim>\<open>swagger.close()\<close> raise, if
  anything.
\<close>

definition close :: "exn option \<Rightarrow> exn option \<Rightarrow> client \<Rightarrow> exn option \<times> client" where
  "close request_raises swagger_raises st =
     (if (case request_raises of None \<Rightarrow> True | Some e \<Rightarrow> is_Exception e)
      then (case close_sockets (websockets st) st of
              (Some e, st') \<Rightarrow> (Some e, st')
            | (None, st') \<Rightarrow>
                (case swagger_raises of
                   None \<Rightarrow> (None, st'\<lparr>swagger_closed := True\<rparr>)
                 | Some e \<Rightarrow> (Some e, st')))
      else (request_raises, st))"

section \<open>Example scenarios\<close>

text \<open>
  A client as \<^verbatim>\<open>init\<close> leaves it (the default handler logs and returns), and
  concrete listeners, messages and environments on which the theorems are instantiated.
\<close>

definition client0 :: client where
  "client0 = \<lparr>event_models = [], event_listeners = [],
     exception_handler = (\<lambda>e reg. (None, reg)), websockets = [], closures = 0,
     invoked = [], handled = [], tasks = [], logged = [], closed = [],
     swagger_closed = False\<rparr>"

definition quiet_env :: env where
  \<open>quiet_env = \<lparr>call_fn = (\<lambda>n pos kw reg. (Returned None, reg)),
     factory_fn = (\<lambda>n v. Inr (PObj n)),
     json_loads = (\<lambda>s. if s = ''[]'' then Inr (PList [])
                         else if s = ''{}'' then Inr (PDict [])
                         else if s = ''{"type": "ChannelDestroyed"}''
                         then Inr (PDict [(''type'', PStr ''ChannelDestroyed'')])
                         else Inl JSONDecodeError)\<rparr>\<close>

definition destroyed42 :: "(string \<times> pyval) list" where
  "destroyed42 = [(''type'', PStr ''ChannelDestroyed''), (''channel'', PDict [(''id'', PStr ''42'')])]"

definition kwargs_listener :: listener where
  "kwargs_listener = Listener (PyFunc 0) PNone [] [(''channel_id'', PStr ''42'')] (PBool False)"

text \<open>
  What \<^verbatim>\<open>on_event('StasisEnd', f, None, '42')\<close> registers: the identifier is in the
  \<^verbatim>\<open>as_task\<close> slot.
\<close>

definition task_slot_listener :: listener where
  "task_slot_listener = Listener (PyFunc 2) PNone [] [] (PStr ''42'')"

definition obj_listener :: listener where
  "obj_listener = Listener (PyFunc 1) (PStr ''42'') [] [] (PBool False)"

definition failing_coroutine :: awaitable where
  "failing_coroutine = Awaitable True (\<lambda>reg. (Some (UserException 7), reg))"

definition task_env :: env where
  "task_env = \<lparr>call_fn = (\<lambda>n pos kw reg. (Returned (Some failing_coroutine), reg)),
     factory_fn = (\<lambda>n v. Inr (PObj n)), json_loads = (\<lambda>s. Inl JSONDecodeError)\<rparr>"

definition failing_env :: env where
  "failing_env = \<lparr>call_fn = (\<lambda>n pos kw reg.
       if n = 0 then (Raised (UserException 3), reg) else (Returned None, reg)),
     factory_fn = (\<lambda>n v. Inr (PObj n)), json_loads = (\<lambda>s. Inl JSONDecodeError)\<rparr>"

definition exit_env :: env where
  "exit_env = \<lparr>call_fn = (\<lambda>n pos kw reg.
       if n = 0 then (Raised (BaseOnly 0), reg) else (Returned None, reg)),
     factory_fn = (\<lambda>n v. Inr (PObj n)), json_loads = (\<lambda>s. Inl JSONDecodeError)\<rparr>"

definition stasis_start :: "(string \<times> pyval) list" where
  "stasis_start = [(''type'', PStr ''StasisStart''), (''channel'', PDict [(''id'', PStr ''42'')])]"

definition first_listener :: listener where
  "first_listener = Listener (PyFunc 0) PNone [] [] (PBool False)"

definition second_listener :: listener where
  "second_listener = Listener (PyFunc 1) PNone [] [] (PBool False)"

definition detached_listener :: listener where
  "detached_listener = Listener (PyFunc 0) PNone [] [] (PBool True)"

definition ws_failing :: websocket where
  "ws_failing = WebSocket 1 (Some [PStr ''127.0.0.1'', PInt 8088]) (Some (UserException 5))"

definition ws_ok :: websocket where
  "ws_ok = WebSocket 2 (Some [PStr ''127.0.0.1'', PInt 8088]) None"

definition ws_no_peer :: websocket where
  "ws_no_peer = WebSocket 3 None None"

definition schema_client :: client where
  "schema_client = client0\<lparr>event_models :=
     [(''StasisStart'', [(''type'', ''string''), (''args'', ''List[string]''),
        (''channel'', ''Channel'')]),
      (''BridgeBlindTransfer'', [(''type'', ''string''), (''channel'', ''Channel''),
        (''replace_channel'', ''Channel''), (''transferee'', ''Channel'')])]\<rparr>"

definition talking_empty_channel :: "(string \<times> pyval) list" where
  "talking_empty_channel = [(''type'', PStr ''ChannelTalkingStarted''), (''channel'', PDict [])]"

definition transfer_one_channel :: "(string \<times> pyval) list" where
  "transfer_one_channel =
     [(''type'', PStr ''BridgeBlindTransfer''), (''channel'', PDict [(''id'', PStr ''42'')])]"

definition wrapping_env :: env where
  "wrapping_env = \<lparr>call_fn = (\<lambda>n pos kw reg. (Returned None, reg)),
     factory_fn = (\<lambda>n v. Inr (PTuple [PObj n, v])),
     json_loads = (\<lambda>s. Inl JSONDecodeError)\<rparr>"

definition clearing_env :: env where
  "clearing_env = \<lparr>call_fn = (\<lambda>n pos kw reg. (Returned None, [])),
     factory_fn = (\<lambda>n v. Inr (PObj n)), json_loads = (\<lambda>s. Inl JSONDecodeError)\<rparr>"

section \<open>Equality is an equivalence\<close>

lemma py_eq_refl: "py_eq x x"
  by (induction x) (fastforce simp: list_all2_same list_all_iff list_ex_iff)+

lemma py_eq_sym: "py_eq x y \<Longrightarrow> py_eq y x"
proof (induction x arbitrary: y)
  case (PList xs)
  then show ?case
    by (cases y) (auto simp: list_all2_conv_all_nth)
next
  case (PTuple xs)
  then show ?case
    by (cases y) (auto simp: list_all2_conv_all_nth)
next
  case (PDict a)
  then show ?case
    by (cases y) (auto simp: list_all_iff list_ex_iff, fastforce+)
qed (auto split: pyval.splits if_splits)

lemma list_all2_trans_on:
  "(\<And>x y z. x \<in> set xs \<Longrightarrow> P x y \<Longrightarrow> P y z \<Longrightarrow> P x z) \<Longrightarrow>
   list_all2 P xs ys \<Longrightarrow> list_all2 P ys zs \<Longrightarrow> list_all2 P xs zs"
proof (induction xs arbitrary: ys zs)
  case Nil
  then show ?case by simp
next
  case (Cons x xs)
  from Cons.prems(2) obtain y ys' where ys: "ys = y # ys'" "P x y" "list_all2 P xs ys'"
    by (auto simp: list_all2_Cons1)
  from Cons.prems(3) ys obtain z zs' where zs: "zs = z # zs'" "P y z" "list_all2 P ys' zs'"
    by (auto simp: list_all2_Cons1)
  have "P x z" using Cons.prems(1) ys(2) zs(2) by simp
  moreover have "list_all2 P xs zs'"
    using Cons.IH [OF _ ys(3) zs(3)] Cons.prems(1) by simp
  ultimately show ?case using zs(1) by simp
qed

lemma py_eq_trans: "py_eq x y \<Longrightarrow> py_eq y z \<Longrightarrow> py_eq x z"
proof (induction x arbitrary: y z)
  case PNone
  then show ?case by simp
next
  case (PBool a)
  then show ?case by (cases y; simp; cases z; simp split: if_splits)
next
  case (PInt m)
  then show ?case by (cases y; simp; cases z; simp split: if_splits)
next
  case (PStr s)
  then show ?case by simp
next
  case (PList xs)
  from PList.prems(1) obtain ys where y: "y = PList ys" "list_all2 py_eq xs ys"
    by (cases y) simp_all
  from PList.prems(2) y obtain zs where z: "z = PList zs" "list_all2 py_eq ys zs"
    by (cases z) simp_all
  have "list_all2 py_eq xs zs"
    using PList.IH y(2) z(2) by (rule list_all2_trans_on)
  then show ?case using z(1) by simp
next
  case (PTuple xs)
  from PTuple.prems(1) obtain ys where y: "y = PTuple ys" "list_all2 py_eq xs ys"
    by (cases y) simp_all
  from PTuple.prems(2) y obtain zs where z: "z = PTuple zs" "list_all2 py_eq ys zs"
    by (cases z) simp_all
  have "list_all2 py_eq xs zs"
    using PTuple.IH y(2) z(2) by (rule list_all2_trans_on)
  then show ?case using z(1) by simp
next
  case (PDict a)
  from PDict.prems(1) obtain b where y: "y = PDict b"
    by (cases y) simp_all
  from PDict.prems(2) y obtain c where z: "z = PDict c"
    by (cases z) simp_all
  have ab: "\<exists>w. (k, w) \<in> set b \<and> py_eq v w" if "(k, v) \<in> set a" for k v
    using PDict.prems(1) y that by (fastforce simp: list_all_iff list_ex_iff)
  have ba: "\<exists>v. (k, v) \<in> set a \<and> py_eq v w" if "(k, w) \<in> set b" for k w
    using PDict.prems(1) y that by (fastforce simp: list_all_iff list_ex_iff)
  have bc: "\<exists>w. (k, w) \<in> set c \<and> py_eq v w" if "(k, v) \<in> set b" for k v
    using PDict.prems(2) y z that by (fastforce simp: list_all_iff list_ex_iff)
  have cb: "\<exists>v. (k, v) \<in> set b \<and> py_eq v w" if "(k, w) \<in> set c" for k w
    using PDict.prems(2) y z that by (fastforce simp: list_all_iff list_ex_iff)
  have ih: "py_eq v u" if "(k, v) \<in> set a" "py_eq v w" "py_eq w u" for k v w u
    using PDict.IH [of "(k, v)" v w u] that by simp
  have ac: "\<exists>u. (k, u) \<in> set c \<and> py_eq v u" if "(k, v) \<in> set a" for k v
  proof -
    from ab [OF that] obtain w where w: "(k, w) \<in> set b" "py_eq v w" by blast
    from bc [OF w(1)] obtain u where u: "(k, u) \<in> set c" "py_eq w u" by blast
    from ih [OF that w(2) u(2)] u(1) show ?thesis by blast
  qed
  have ca: "\<exists>v. (k, v) \<in> set a \<and> py_eq v u" if "(k, u) \<in> set c" for k u
  proof -
    from cb [OF that] obtain w where w: "(k, w) \<in> set b" "py_eq w u" by blast
    from ba [OF w(1)] obtain v where v: "(k, v) \<in> set a" "py_eq v w" by blast
    from ih [OF v(1) v(2) w(2)] v(1) show ?thesis by blast
  qed
  show ?case
    unfolding z using ac ca by (fastforce simp: list_all_iff list_ex_iff)
next
  case (PCallable f)
  then show ?case by simp
next
  case (PObj i)
  then show ?case by simp
qed

lemma tuple_eq_refl: "tuple_eq a a"
  by (cases a) (simp add: tuple_eq_def py_eq_refl)

lemma tuple_eq_py_in:
  assumes "tuple_eq e x" and "py_in v x"
  shows "py_in v e"
proof -
  obtain c where c: "c \<in> set (items x)" "py_eq c v"
    using assms(2) by (auto simp: py_in_def list_ex_iff)
  then obtain i where i: "i < length (items x)" "items x ! i = c"
    by (auto simp: in_set_conv_nth)
  have len: "length (items e) = length (items x)"
    and nth: "\<And>j. j < length (items e) \<Longrightarrow> py_eq (items e ! j) (items x ! j)"
    using assms(1) by (auto simp: tuple_eq_def list_all2_conv_all_nth)
  have "py_eq (items e ! i) v"
    using nth [of i] i len c(2) py_eq_trans by auto
  moreover have "items e ! i \<in> set (items e)"
    using i len by simp
  ultimately show ?thesis
    by (auto simp: py_in_def list_ex_iff)
qed

lemma tuple_eq_sym: "tuple_eq a b \<Longrightarrow> tuple_eq b a"
  unfolding tuple_eq_def list_all2_conv_all_nth using py_eq_sym by auto

lemma tuple_eq_trans: "tuple_eq a b \<Longrightarrow> tuple_eq b c \<Longrightarrow> tuple_eq a c"
  unfolding tuple_eq_def using py_eq_trans by (rule list_all2_trans_on)

lemma tuple_eq_cong: "tuple_eq a b \<Longrightarrow> tuple_eq a x = tuple_eq b x"
  using tuple_eq_trans tuple_eq_sym by blast

lemma list_remove_Inr:
  "list_remove x l = Inr l' \<Longrightarrow>
   \<exists>pre e post. l = pre @ e # post \<and> l' = pre @ post \<and> tuple_eq e x"
proof (induction l arbitrary: l')
  case Nil
  then show ?case by simp
next
  case (Cons a l)
  show ?case
  proof (cases "tuple_eq a x")
    case True
    with Cons.prems have "l' = l" by simp
    with True show ?thesis by (intro exI [of _ "[]"]) auto
  next
    case False
    with Cons.prems obtain m where m: "list_remove x l = Inr m" "l' = a # m"
      by (auto split: sum.splits)
    from Cons.IH [OF m(1)] obtain pre e post
      where "l = pre @ e # post" "m = pre @ post" "tuple_eq e x" by blast
    with m(2) show ?thesis by (intro exI [of _ "a # pre"]) auto
  qed
qed

lemma list_remove_finds:
  "e \<in> set l \<Longrightarrow> tuple_eq e x \<Longrightarrow> \<exists>l'. list_remove x l = Inr l'"
  by (induction l) (auto split: sum.splits)

lemma remove_each_filter:
  assumes resp: "\<And>e x. tuple_eq e x \<Longrightarrow> P x \<Longrightarrow> P e"
  shows "\<forall>x. length (filter (\<lambda>e. tuple_eq e x \<and> P e) l) = length (filter (\<lambda>e. tuple_eq e x) sel) \<Longrightarrow>
         \<forall>x\<in>set sel. P x \<Longrightarrow>
         remove_each sel l = (None, filter (\<lambda>e. \<not> P e) l)"
proof (induction sel arbitrary: l)
  case Nil
  have "\<not> P e" if "e \<in> set l" for e
  proof
    assume "P e"
    with that have "e \<in> set (filter (\<lambda>e'. tuple_eq e' e \<and> P e') l)"
      by (simp add: tuple_eq_refl)
    moreover have "filter (\<lambda>e'. tuple_eq e' e \<and> P e') l = []"
      using Nil.prems(1) by simp
    ultimately show False by simp
  qed
  then have "filter (\<lambda>e. \<not> P e) l = l"
    by (simp add: filter_id_conv)
  then show ?case by simp
next
  case (Cons x sel)
  have "0 < length (filter (\<lambda>e. tuple_eq e x \<and> P e) l)"
    using Cons.prems(1) by (simp add: tuple_eq_refl)
  then obtain e0 where "e0 \<in> set l" "tuple_eq e0 x"
    by (auto simp: filter_empty_conv)
  then obtain l' where l': "list_remove x l = Inr l'"
    using list_remove_finds by blast
  from list_remove_Inr [OF this] obtain pre e post
    where split: "l = pre @ e # post" "l' = pre @ post" "tuple_eq e x" by blast
  have Pe: "P e" using resp [OF split(3)] Cons.prems(2) by simp
  have keep: "filter (\<lambda>e. \<not> P e) l' = filter (\<lambda>e. \<not> P e) l"
    using split Pe by simp
  have counts: "\<forall>y. length (filter (\<lambda>e. tuple_eq e y \<and> P e) l') = length (filter (\<lambda>e. tuple_eq e y) sel)"
  proof
    fix y
    have "length (filter (\<lambda>e. tuple_eq e y \<and> P e) l) = length (filter (\<lambda>e. tuple_eq e y) (x # sel))"
      using Cons.prems(1) by blast
    moreover have "tuple_eq e y = tuple_eq x y"
      using split(3) by (rule tuple_eq_cong)
    ultimately show "length (filter (\<lambda>e. tuple_eq e y \<and> P e) l') = length (filter (\<lambda>e. tuple_eq e y) sel)"
      using split(1,2) Pe by (auto split: if_splits)
  qed
  have "remove_each sel l' = (None, filter (\<lambda>e. \<not> P e) l')"
    using Cons.IH [OF counts] Cons.prems(2) by simp
  then show ?case using l' keep by simp
qed

lemma gc_select_Inr: "gc_ident msg = Inr v \<Longrightarrow> gc_select msg l = Inr (filter (py_in v) l)"
  by (induction l) auto

lemma gc_select_Inl: "gc_ident msg = Inl e \<Longrightarrow> gc_select msg l = (if l = [] then Inr [] else Inl e)"
  by (cases l) auto

lemma gc_list_Inr:
  assumes "gc_ident msg = Inr v"
  shows "gc_list msg l = (None, filter (\<lambda>item. \<not> py_in v item) l)"
proof -
  have "remove_each (filter (py_in v) l) l = (None, filter (\<lambda>item. \<not> py_in v item) l)"
  proof (rule remove_each_filter)
    show "\<And>e x. tuple_eq e x \<Longrightarrow> py_in v x \<Longrightarrow> py_in v e"
      by (rule tuple_eq_py_in)
    show "\<forall>x. length (filter (\<lambda>e. tuple_eq e x \<and> py_in v e) l) =
        length (filter (\<lambda>e. tuple_eq e x) (filter (py_in v) l))"
      by (simp add: conj_commute)
    show "\<forall>x\<in>set (filter (py_in v) l). py_in v x" by simp
  qed
  then show ?thesis
    by (simp add: gc_list_def gc_select_Inr [OF assms])
qed

lemma gc_list_Inl:
  "gc_ident msg = Inl e \<Longrightarrow> gc_list msg l = (if l = [] then (None, []) else (Some e, l))"
  by (simp add: gc_list_def gc_select_Inl)

lemma gc_entries_Inr:
  "gc_ident msg = Inr v \<Longrightarrow>
   gc_entries msg reg = (None, map (\<lambda>(i, l). (i, filter (\<lambda>item. \<not> py_in v item) l)) reg)"
  by (induction reg) (auto simp: gc_list_Inr)

lemma gc_entries_Inl:
  "gc_ident msg = Inl e \<Longrightarrow>
   gc_entries msg reg = (if list_all (\<lambda>(i, l). l = []) reg then None else Some e, reg)"
  by (induction reg) (auto simp: gc_list_Inl)

lemma py_in_iff:
  "py_in x item \<longleftrightarrow> py_eq (PCallable (callback item)) x \<or> py_eq (event_obj item) x \<or>
     py_eq (PTuple (args item)) x \<or> py_eq (PDict (kwargs item)) x \<or> py_eq (as_task item) x"
  by (cases item) (simp add: py_in_def)

lemma py_eq_PStr: "py_eq v (PStr s) \<longleftrightarrow> v = PStr s"
  using py_eq_sym [of v "PStr s"] py_eq_sym [of "PStr s" v] by auto

lemma py_in_PStr:
  "py_in (PStr s) item \<longleftrightarrow> event_obj item = PStr s \<or> as_task item = PStr s"
  by (auto simp: py_in_iff py_eq_PStr)

lemma gc_ident_channel:
  "map_of msg ''channel'' = Some (PDict ch) \<Longrightarrow>
   gc_ident msg = Inr (case map_of ch ''id'' of None \<Rightarrow> PNone | Some v \<Rightarrow> v)"
  by (simp add: gc_ident_def)

section \<open>Garbage collection after a \<^verbatim>\<open>ChannelDestroyed\<close> event\<close>

text \<open>
  Claim C1, as amended.  When a \<^verbatim>\<open>ChannelDestroyed\<close> message carries the channel
  identifier \<open>x\<close> and the listener loop has completed, the pass removes from the list of
  every event type exactly the registrations whose tuple
  \<^verbatim>\<open>(event_cb, event_obj, args, kwargs, as_task)\<close> has a component equal to \<open>x\<close>, and keeps
  all the others in their order.  The components are compared as wholes: for an
  identifier that is a string these are the registrations whose \<^verbatim>\<open>event_obj\<close> or
  \<^verbatim>\<open>as_task\<close> is that string; an identifier inside \<^verbatim>\<open>args\<close> or \<^verbatim>\<open>kwargs\<close> is not
  looked for.
\<close>

theorem process_ws_gc_removes_tuple_members:
  assumes "map_of msg ''type'' = Some (PStr ''ChannelDestroyed'')"
    and "map_of msg ''channel'' = Some (PDict ch)"
    and "x = (case map_of ch ''id'' of None \<Rightarrow> PNone | Some v \<Rightarrow> v)"
    and "run_listeners env msg
           (get_listeners (event_listeners st) ''ChannelDestroyed'' @
            get_listeners (event_listeners st) ''*'') st = (None, st1)"
  shows "process_ws env msg st =
           (None, st1\<lparr>event_listeners :=
              map (\<lambda>(i, l). (i, filter (\<lambda>item. \<not> py_in x item) l)) (event_listeners st1)\<rparr>) \<and>
         (\<forall>item. py_in x item \<longleftrightarrow>
            py_eq (PCallable (callback item)) x \<or> py_eq (event_obj item) x \<or>
            py_eq (PTuple (args item)) x \<or> py_eq (PDict (kwargs item)) x \<or>
            py_eq (as_task item) x) \<and>
         (\<forall>s item. x = PStr s \<longrightarrow>
            py_in x item = (event_obj item = PStr s \<or> as_task item = PStr s))"
proof -
  have "gc_ident msg = Inr x"
    using assms(2,3) by (simp add: gc_ident_channel)
  then have "gc_entries msg (event_listeners st1) =
      (None, map (\<lambda>(i, l). (i, filter (\<lambda>item. \<not> py_in x item) l)) (event_listeners st1))"
    by (rule gc_entries_Inr)
  then show ?thesis
    using assms(1,4) py_in_iff [of x] py_in_PStr
    by (simp add: process_ws_def resolve_def)
qed

text \<open>
  The theorem at a registry holding a listener with \<^verbatim>\<open>channel_id="42"\<close> among its
  keyword arguments, one with \<^verbatim>\<open>event_obj = "42"\<close> and one that was given \<^verbatim>\<open>"42"\<close>
  in the place of \<^verbatim>\<open>as_task\<close>: the last two are removed.
\<close>

theorem process_ws_gc_removes_tuple_members_witness:
  "map_of destroyed42 ''type'' = Some (PStr ''ChannelDestroyed'') \<and>
   map_of destroyed42 ''channel'' = Some (PDict [(''id'', PStr ''42'')]) \<and>
   process_ws quiet_env destroyed42
     (client0\<lparr>event_listeners :=
        [(''StasisEnd'', [kwargs_listener, obj_listener, task_slot_listener])]\<rparr>) =
     (None, client0\<lparr>event_listeners := [(''StasisEnd'', [kwargs_listener])]\<rparr>)"
  using process_ws_gc_removes_tuple_members [of destroyed42 "[(''id'', PStr ''42'')]" "PStr ''42''"
      quiet_env
      "client0\<lparr>event_listeners :=
         [(''StasisEnd'', [kwargs_listener, obj_listener, task_slot_listener])]\<rparr>"
      "client0\<lparr>event_listeners :=
         [(''StasisEnd'', [kwargs_listener, obj_listener, task_slot_listener])]\<rparr>"]
  by (simp add: destroyed42_def get_listeners_def kwargs_listener_def obj_listener_def
      task_slot_listener_def)

text \<open>
  Claim C1 as stated fails: a listener registered with \<^verbatim>\<open>channel_id="42"\<close> among its
  keyword arguments is still registered after \<^verbatim>\<open>ChannelDestroyed\<close> for channel \<^verbatim>\<open>"42"\<close>.
\<close>

theorem gc_keeps_listener_with_id_in_kwargs:
  "map_of (kwargs kwargs_listener) ''channel_id'' = Some (PStr ''42'') \<and>
   process_ws quiet_env destroyed42
     (client0\<lparr>event_listeners := [(''StasisEnd'', [kwargs_listener])]\<rparr>) =
     (None, client0\<lparr>event_listeners := [(''StasisEnd'', [kwargs_listener])]\<rparr>)"
  by (simp add: process_ws_def resolve_def get_listeners_def destroyed42_def kwargs_listener_def
      gc_list_def gc_ident_def py_in_def tuple_eq_def)

section \<open>The listener loop\<close>

lemma on_exception_fields [simp]:
  "exception_handler (snd (on_exception e st)) = exception_handler st"
  "invoked (snd (on_exception e st)) = invoked st"
  "tasks (snd (on_exception e st)) = tasks st"
  by (simp_all add: on_exception_def split: prod.splits)

lemma run_listener_handler [simp]:
  "exception_handler (snd (run_listener env msg l st)) = exception_handler st"
  by (simp add: run_listener_def Let_def split: prod.splits call_result.splits option.splits)

lemma run_listener_invoked [simp]:
  "invoked (snd (run_listener env msg l st)) = invoked st @ [l]"
  by (simp add: run_listener_def Let_def split: prod.splits call_result.splits option.splits)

lemma run_listeners_handler [simp]:
  "exception_handler (snd (run_listeners env msg ls st)) = exception_handler st"
proof (induction ls arbitrary: st)
  case Nil
  then show ?case by simp
next
  case (Cons l ls)
  obtain r st' where step: "run_listener env msg l st = (r, st')"
    by (cases "run_listener env msg l st")
  have "exception_handler st' = exception_handler st"
    using run_listener_handler [of env msg l st] step by simp
  with Cons.IH [of st'] step show ?case
    by (cases r) simp_all
qed

lemma run_listeners_invoked:
  "(\<exists>k. invoked (snd (run_listeners env msg ls st)) = invoked st @ take k ls) \<and>
   (fst (run_listeners env msg ls st) = None \<longrightarrow>
      invoked (snd (run_listeners env msg ls st)) = invoked st @ ls)"
proof (induction ls arbitrary: st)
  case Nil
  then show ?case by simp
next
  case (Cons l ls)
  obtain r st' where step: "run_listener env msg l st = (r, st')"
    by (cases "run_listener env msg l st")
  have inv: "invoked st' = invoked st @ [l]"
    using run_listener_invoked [of env msg l st] step by simp
  show ?case
  proof (cases r)
    case None
    from Cons.IH [of st'] obtain k
      where "invoked (snd (run_listeners env msg ls st')) = invoked st' @ take k ls" by blast
    then have "invoked (snd (run_listeners env msg (l # ls) st)) = invoked st @ take (Suc k) (l # ls)"
      using step None inv by simp
    then have "\<exists>k. invoked (snd (run_listeners env msg (l # ls) st)) = invoked st @ take k (l # ls)"
      by blast
    then show ?thesis
      using Cons.IH [of st'] step None inv by simp
  next
    case (Some e)
    have "invoked (snd (run_listeners env msg (l # ls) st)) = invoked st @ take (Suc 0) (l # ls)"
      using step Some inv by simp
    then have "\<exists>k. invoked (snd (run_listeners env msg (l # ls) st)) = invoked st @ take k (l # ls)"
      by blast
    then show ?thesis
      using step Some by simp
  qed
qed

lemma list_remove_subseq: "list_remove x l = Inr l' \<Longrightarrow> subseq l' l"
proof -
  assume "list_remove x l = Inr l'"
  from list_remove_Inr [OF this] obtain pre e post
    where "l = pre @ e # post" "l' = pre @ post" by blast
  then show ?thesis
    using subseq_Cons' [of e post "e # post"] by (simp add: subseq_append')
qed

lemma on_event_scan_subseq: "on_event_scan cb i l = Inr l' \<Longrightarrow> subseq l' l"
proof (induction "length l - i" arbitrary: i l rule: less_induct)
  case less
  show ?case
  proof (cases "i < length l")
    case False
    then have "l' = l"
      using less.prems by (subst (asm) on_event_scan.simps) simp
    then show ?thesis by simp
  next
    case True
    show ?thesis
    proof (cases "cb = callback (l ! i)")
      case match: True
      obtain m where rm: "list_remove (l ! i) l = Inr m"
        and rec: "on_event_scan cb (Suc i) m = Inr l'"
        using less.prems True match
        by (subst (asm) on_event_scan.simps) (auto split: sum.splits)
      from list_remove_Inr [OF rm] have len: "Suc (length m) = length l" by auto
      have "subseq l' m"
        using True len rec by (intro less.hyps) simp_all
      moreover have "subseq m l" using rm by (rule list_remove_subseq)
      ultimately show ?thesis by (rule subseq_order.trans)
    next
      case False
      have rec: "on_event_scan cb (Suc i) l = Inr l'"
        using less.prems True False by (subst (asm) on_event_scan.simps) simp
      show ?thesis
        using True rec by (intro less.hyps) simp_all
    qed
  qed
qed

lemma get_listeners_dict_set:
  "get_listeners (dict_set reg k v) k' = (if k' = k then v else get_listeners reg k')"
  by (induction reg) (auto simp: get_listeners_def)

lemma on_event_scan_Inr: "\<exists>l'. on_event_scan cb i l = Inr l'"
proof (induction "length l - i" arbitrary: i l rule: less_induct)
  case less
  show ?case
  proof (cases "i < length l")
    case False
    then show ?thesis by (subst on_event_scan.simps) simp
  next
    case True
    obtain l' where rm: "list_remove (l ! i) l = Inr l'"
      using list_remove_finds [of "l ! i" l "l ! i"] True tuple_eq_refl by auto
    from list_remove_Inr [OF rm] have len: "Suc (length l') = length l" by auto
    have a: "\<exists>m. on_event_scan cb (Suc i) l' = Inr m"
      using True len by (intro less) simp
    have b: "\<exists>m. on_event_scan cb (Suc i) l = Inr m"
      using True by (intro less) simp
    show ?thesis
      using True rm a b by (subst on_event_scan.simps) auto
  qed
qed

lemma on_event_appends:
  "\<exists>st' l. on_event st T cb eo task a kw = Inr st' \<and>
     get_listeners (event_listeners st') T = l @ [Listener cb eo a kw task] \<and>
     subseq l (get_listeners (event_listeners st) T)"
proof -
  obtain l where l: "on_event_scan cb 0 (get_listeners (event_listeners st) T) = Inr l"
    using on_event_scan_Inr by blast
  then have "subseq l (get_listeners (event_listeners st) T)"
    by (rule on_event_scan_subseq)
  with l show ?thesis
    by (simp add: on_event_def get_listeners_dict_set)
qed

text \<open>
  Claim C8.  For a message of type \<open>T\<close> the resolved sequence is the list registered for
  \<open>T\<close> followed by the list registered for \<^verbatim>\<open>"*"\<close>, as they are in the registry when
  dispatch starts.  Each list is in insertion order: \<^verbatim>\<open>on_event\<close> puts the new
  registration last and leaves the remaining ones in their order.  The listeners that
  dispatch invokes are an initial part of the resolved sequence, and all of it when no
  exception escapes, whatever the listeners do to the registry while they run.
\<close>

theorem process_ws_iterates_snapshot:
  assumes "map_of msg ''type'' = Some (PStr T)"
  shows "resolve (event_listeners st) (PStr T) =
           Inr (get_listeners (event_listeners st) T @ get_listeners (event_listeners st) ''*'') \<and>
         (\<exists>st' l. on_event st0 T' cb eo task a kw = Inr st' \<and>
            get_listeners (event_listeners st') T' = l @ [Listener cb eo a kw task] \<and>
            subseq l (get_listeners (event_listeners st0) T')) \<and>
         (\<exists>k. invoked (snd (process_ws env msg st)) =
            invoked st @
            take k (get_listeners (event_listeners st) T @ get_listeners (event_listeners st) ''*'')) \<and>
         (fst (process_ws env msg st) = None \<longrightarrow>
            invoked (snd (process_ws env msg st)) =
            invoked st @ get_listeners (event_listeners st) T @ get_listeners (event_listeners st) ''*'')"
proof -
  let ?ls = "get_listeners (event_listeners st) T @ get_listeners (event_listeners st) ''*''"
  obtain r st1 where loop: "run_listeners env msg ?ls st = (r, st1)"
    by (cases "run_listeners env msg ?ls st")
  have res: "resolve (event_listeners st) (PStr T) = Inr ?ls"
    by (simp add: resolve_def)
  have inv: "invoked (snd (process_ws env msg st)) = invoked st1"
    using assms loop
    by (cases r) (simp_all add: process_ws_def resolve_def split: prod.splits)
  have none: "r = None" if "fst (process_ws env msg st) = None"
    using that assms loop by (cases r) (simp_all add: process_ws_def resolve_def)
  from run_listeners_invoked [of env msg ?ls st] loop
  have "\<exists>k. invoked st1 = invoked st @ take k ?ls"
    and "r = None \<longrightarrow> invoked st1 = invoked st @ ?ls"
    by simp_all
  with res inv none on_event_appends [of st0 T' cb eo task a kw] show ?thesis by auto
qed

text \<open>
  The theorem on a registry with one listener for the event type and one for \<^verbatim>\<open>"*"\<close>,
  where every listener empties the registry when it is called: both are invoked.
\<close>

theorem process_ws_iterates_snapshot_witness:
  "map_of stasis_start ''type'' = Some (PStr ''StasisStart'') \<and>
   process_ws clearing_env stasis_start
     (client0\<lparr>event_listeners := [(''*'', [second_listener]), (''StasisStart'', [first_listener])]\<rparr>)
   = (None, client0\<lparr>invoked := [first_listener, second_listener]\<rparr>)"
proof -
  let ?st = "client0\<lparr>event_listeners := [(''*'', [second_listener]), (''StasisStart'', [first_listener])]\<rparr>"
  have t: "map_of stasis_start ''type'' = Some (PStr ''StasisStart'')"
    by (simp add: stasis_start_def)
  have ok: "fst (process_ws clearing_env stasis_start ?st) = None"
    and reg: "event_listeners (snd (process_ws clearing_env stasis_start ?st)) = []"
    and rest: "snd (process_ws clearing_env stasis_start ?st) =
      ?st\<lparr>event_listeners := event_listeners (snd (process_ws clearing_env stasis_start ?st)),
          invoked := invoked (snd (process_ws clearing_env stasis_start ?st))\<rparr>"
    by (simp_all add: process_ws_def resolve_def get_listeners_def stasis_start_def run_listener_def
        first_listener_def second_listener_def clearing_env_def)
  have "invoked (snd (process_ws clearing_env stasis_start ?st)) = [first_listener, second_listener]"
    using process_ws_iterates_snapshot [OF t, where st = ?st and env = clearing_env] ok
    by (simp add: get_listeners_def client0_def)
  with reg rest have "snd (process_ws clearing_env stasis_start ?st) =
      client0\<lparr>invoked := [first_listener, second_listener]\<rparr>"
    by (simp add: client0_def)
  with ok t show ?thesis
    by (simp add: prod_eq_iff)
qed

section \<open>Failures of listeners\<close>

lemma comprehend_Inl: "comprehend fac ev fs acc = Inl e \<Longrightarrow> \<exists>v. fac v = Inl e"
  by (induction fs arbitrary: acc) (auto split: option.splits if_splits sum.splits)

lemma extract_objects_Inl:
  assumes "extract_objects env fac fs event = Inl e"
  shows "e = AttributeError \<or> (\<exists>v. factory_fn env fac v = Inl e)"
  using assms comprehend_Inl [of "factory_fn env fac"]
  by (auto simp: extract_objects_def split: pyval.splits sum.splits if_splits)

lemma invoke_results:
  assumes calls: "\<forall>n pos kw reg e. fst (call_fn env n pos kw reg) = Raised e \<longrightarrow> is_Exception e"
    and bodies: "\<forall>n pos kw reg cb reg' e. fst (call_fn env n pos kw reg) = Returned (Some cb) \<longrightarrow>
        fst (body cb reg') = Some e \<longrightarrow> is_Exception e"
    and factories: "\<forall>n v e. factory_fn env n v = Inl e \<longrightarrow> is_Exception e"
  shows "(fst (invoke env c pos kw reg) = Raised e \<longrightarrow> is_Exception e) \<and>
         (fst (invoke env c pos kw reg) = Returned (Some cb) \<longrightarrow> fst (body cb reg') = Some e \<longrightarrow>
            is_Exception e)"
proof (induction c arbitrary: pos)
  case (PyFunc n)
  show ?case using calls bodies by simp
next
  case (ExtractObjects serial event_cb fac fs)
  show ?case
  proof (cases pos)
    case Nil
    then show ?thesis by simp
  next
    case (Cons event rest)
    show ?thesis
    proof (cases "extract_objects env fac fs event")
      case (Inl err)
      then have "is_Exception err"
        using extract_objects_Inl [OF Inl] factories by auto
      with Inl Cons show ?thesis by auto
    next
      case (Inr obj)
      with Cons ExtractObjects.IH [of "obj_arg obj # event # rest"] show ?thesis by simp
    qed
  qed
qed

lemma run_listener_no_escape:
  assumes handler: "\<forall>e reg. fst (exception_handler st e reg) = None"
    and calls: "\<forall>n pos kw reg e. fst (call_fn env n pos kw reg) = Raised e \<longrightarrow> is_Exception e"
    and bodies: "\<forall>n pos kw reg cb reg' e. fst (call_fn env n pos kw reg) = Returned (Some cb) \<longrightarrow>
        fst (body cb reg') = Some e \<longrightarrow> is_Exception e"
    and factories: "\<forall>n v e. factory_fn env n v = Inl e \<longrightarrow> is_Exception e"
  shows "fst (run_listener env msg l st) = None"
proof -
  let ?call = "invoke env (callback l) (PDict msg # args l) (kwargs l) (event_listeners st)"
  obtain res reg1 where inv: "?call = (res, reg1)"
    by (cases ?call)
  note results = invoke_results [OF calls bodies factories,
      where c = "callback l" and pos = "PDict msg # args l" and kw = "kwargs l"
        and reg = "event_listeners st"]
  have handled_ok: "fst (on_exception e st') = None"
    if "is_Exception e" "exception_handler st' = exception_handler st" for e st'
  proof -
    obtain r reg where h: "exception_handler st e (event_listeners st') = (r, reg)"
      by (cases "exception_handler st e (event_listeners st')")
    have "fst (exception_handler st e (event_listeners st')) = None"
      using handler by blast
    with h have "r = None" by simp
    with h that show ?thesis by (simp add: on_exception_def)
  qed
  show ?thesis
  proof (cases res)
    case (Raised e)
    then have "is_Exception e"
      using results [of e] inv by simp
    then show ?thesis
      using inv Raised handled_ok by (simp add: run_listener_def Let_def)
  next
    case (Returned r)
    show ?thesis
    proof (cases r)
      case None
      with inv Returned show ?thesis by (simp add: run_listener_def Let_def)
    next
      case (Some cb)
      have body_ok: "is_Exception e" if "fst (body cb reg') = Some e" for reg' e
        using results [of e cb reg'] inv Returned Some that by simp
      show ?thesis
      proof (cases "py_truthy (as_task l)")
        case True
        then show ?thesis
          using inv Returned Some handled_ok [of TypeError]
          by (simp add: run_listener_def Let_def)
      next
        case False
        obtain r2 reg2 where b: "body cb reg1 = (r2, reg2)"
          by (cases "body cb reg1")
        show ?thesis
        proof (cases r2)
          case None
          with inv Returned Some False b show ?thesis by (simp add: run_listener_def Let_def)
        next
          case (Some e)
          then have "is_Exception e" using body_ok [of reg1 e] b by simp
          then show ?thesis
            using inv Returned \<open>r = Some cb\<close> False b Some handled_ok
            by (simp add: run_listener_def Let_def)
        qed
      qed
    qed
  qed
qed

lemma run_listeners_no_escape:
  assumes calls: "\<forall>n pos kw reg e. fst (call_fn env n pos kw reg) = Raised e \<longrightarrow> is_Exception e"
    and bodies: "\<forall>n pos kw reg cb reg' e. fst (call_fn env n pos kw reg) = Returned (Some cb) \<longrightarrow>
        fst (body cb reg') = Some e \<longrightarrow> is_Exception e"
    and factories: "\<forall>n v e. factory_fn env n v = Inl e \<longrightarrow> is_Exception e"
  shows "\<forall>e reg. fst (exception_handler st e reg) = None \<Longrightarrow>
         fst (run_listeners env msg ls st) = None"
proof (induction ls arbitrary: st)
  case Nil
  then show ?case by simp
next
  case (Cons l ls)
  obtain r st' where step: "run_listener env msg l st = (r, st')"
    by (cases "run_listener env msg l st")
  have "fst (run_listener env msg l st) = None"
    using Cons.prems calls bodies factories by (rule run_listener_no_escape)
  then have "r = None" using step by simp
  moreover have "exception_handler st' = exception_handler st"
    using run_listener_handler [of env msg l st] step by simp
  ultimately show ?case
    using Cons.IH [of st'] Cons.prems step by simp
qed

text \<open>
  Claim C5, as amended.  An exception deriving from \<^verbatim>\<open>Exception\<close> that a listener
  raises, when called or while it is awaited in place, is caught for that listener and
  handed to the failure handler, and when the handler returns normally dispatch goes on
  with the listeners after it exactly as if the listener had returned.  When every
  failure of a listener derives from \<^verbatim>\<open>Exception\<close> and the handler always returns
  normally, every resolved listener is invoked with the message and no failure leaves
  the listener loop.
\<close>

theorem listener_failure_is_isolated:
  "(invoke env (callback l) (PDict msg # args l) (kwargs l) (event_listeners st) = (Raised e, reg1) \<longrightarrow>
      is_Exception e \<longrightarrow> exception_handler st e reg1 = (None, reg2) \<longrightarrow>
      run_listeners env msg (l # ls) st =
      run_listeners env msg ls
        (st\<lparr>invoked := invoked st @ [l], event_listeners := reg2, handled := handled st @ [e]\<rparr>)) \<and>
   (invoke env (callback l) (PDict msg # args l) (kwargs l) (event_listeners st) =
        (Returned (Some cb), reg1) \<longrightarrow>
      \<not> py_truthy (as_task l) \<longrightarrow> body cb reg1 = (Some e, reg1') \<longrightarrow>
      is_Exception e \<longrightarrow> exception_handler st e reg1' = (None, reg2) \<longrightarrow>
      run_listeners env msg (l # ls) st =
      run_listeners env msg ls
        (st\<lparr>invoked := invoked st @ [l], event_listeners := reg2, handled := handled st @ [e]\<rparr>)) \<and>
   ((\<forall>e reg. fst (exception_handler st e reg) = None) \<longrightarrow>
    (\<forall>n pos kw reg e. fst (call_fn env n pos kw reg) = Raised e \<longrightarrow> is_Exception e) \<longrightarrow>
    (\<forall>n pos kw reg cb reg' e. fst (call_fn env n pos kw reg) = Returned (Some cb) \<longrightarrow>
        fst (body cb reg') = Some e \<longrightarrow> is_Exception e) \<longrightarrow>
    (\<forall>n v e. factory_fn env n v = Inl e \<longrightarrow> is_Exception e) \<longrightarrow>
    fst (run_listeners env msg ls' st) = None \<and>
    invoked (snd (run_listeners env msg ls' st)) = invoked st @ ls')"
proof (intro conjI impI)
  assume "invoke env (callback l) (PDict msg # args l) (kwargs l) (event_listeners st) = (Raised e, reg1)"
    and "is_Exception e" and "exception_handler st e reg1 = (None, reg2)"
  then show "run_listeners env msg (l # ls) st =
      run_listeners env msg ls
        (st\<lparr>invoked := invoked st @ [l], event_listeners := reg2, handled := handled st @ [e]\<rparr>)"
    by (simp add: run_listener_def on_exception_def)
next
  assume "invoke env (callback l) (PDict msg # args l) (kwargs l) (event_listeners st) =
        (Returned (Some cb), reg1)"
    and "\<not> py_truthy (as_task l)" and "body cb reg1 = (Some e, reg1')"
    and "is_Exception e" and "exception_handler st e reg1' = (None, reg2)"
  then show "run_listeners env msg (l # ls) st =
      run_listeners env msg ls
        (st\<lparr>invoked := invoked st @ [l], event_listeners := reg2, handled := handled st @ [e]\<rparr>)"
    by (simp add: run_listener_def on_exception_def)
next
  assume h: "\<forall>e reg. fst (exception_handler st e reg) = None"
    and c: "\<forall>n pos kw reg e. fst (call_fn env n pos kw reg) = Raised e \<longrightarrow> is_Exception e"
    and b: "\<forall>n pos kw reg cb reg' e. fst (call_fn env n pos kw reg) = Returned (Some cb) \<longrightarrow>
        fst (body cb reg') = Some e \<longrightarrow> is_Exception e"
    and f: "\<forall>n v e. factory_fn env n v = Inl e \<longrightarrow> is_Exception e"
  show none: "fst (run_listeners env msg ls' st) = None"
    using c b f h by (rule run_listeners_no_escape)
  then show "invoked (snd (run_listeners env msg ls' st)) = invoked st @ ls'"
    using run_listeners_invoked [of env msg ls' st] by simp
qed

text \<open>
  The theorem where the first of two listeners raises: the exception goes to the
  handler and both listeners are invoked.
\<close>

theorem listener_failure_is_isolated_witness:
  "invoke failing_env (callback first_listener) (PDict stasis_start # args first_listener)
     (kwargs first_listener) (event_listeners client0) = (Raised (UserException 3), []) \<and>
   is_Exception (UserException 3) \<and>
   exception_handler client0 (UserException 3) [] = (None, []) \<and>
   run_listeners failing_env stasis_start [first_listener, second_listener] client0 =
     (None, client0\<lparr>invoked := [first_listener, second_listener], handled := [UserException 3]\<rparr>) \<and>
   invoke task_env (callback first_listener) (PDict stasis_start # args first_listener)
     (kwargs first_listener) (event_listeners client0) = (Returned (Some failing_coroutine), []) \<and>
   \<not> py_truthy (as_task first_listener) \<and>
   body failing_coroutine [] = (Some (UserException 7), []) \<and>
   is_Exception (UserException 7) \<and>
   run_listeners task_env stasis_start [first_listener, second_listener] client0 =
     (None, client0\<lparr>invoked := [first_listener, second_listener],
        handled := [UserException 7, UserException 7]\<rparr>)"
  using listener_failure_is_isolated [of failing_env first_listener stasis_start client0
      "UserException 3" "[]" "[]" "[second_listener]" failing_coroutine "[]"
      "[first_listener, second_listener]"]
    listener_failure_is_isolated [of task_env first_listener stasis_start client0
      "UserException 7" "[]" "[]" "[second_listener]" failing_coroutine "[]"
      "[first_listener, second_listener]"]
  by (simp add: failing_env_def task_env_def failing_coroutine_def first_listener_def
      second_listener_def client0_def run_listener_def on_exception_def)

text \<open>
  Claim C5 as stated fails: a listener that raises an exception outside \<^verbatim>\<open>Exception\<close>
  (\<^verbatim>\<open>SystemExit\<close>, \<^verbatim>\<open>asyncio.CancelledError\<close>) is not caught; the exception leaves
  dispatch, the handler is not called and the second listener is not invoked.
\<close>

theorem base_exception_skips_later_listener:
  "process_ws exit_env stasis_start
     (client0\<lparr>event_listeners := [(''StasisStart'', [first_listener, second_listener])]\<rparr>) =
   (Some (BaseOnly 0),
    client0\<lparr>event_listeners := [(''StasisStart'', [first_listener, second_listener])],
      invoked := [first_listener]\<rparr>)"
  by (simp add: process_ws_def resolve_def get_listeners_def stasis_start_def run_listener_def
      on_exception_def first_listener_def second_listener_def exit_env_def client0_def)

section \<open>Detached listeners\<close>

text \<open>
  Claim C4, as amended.  For a listener registered with \<^verbatim>\<open>as_task=True\<close>, an exception
  deriving from \<^verbatim>\<open>Exception\<close> that the call itself raises is handed to the failure
  handler.  When the call returns a coroutine, dispatch only schedules it: the body is not
  run by dispatch and nothing is handed to the handler for it, and when the scheduled task
  runs later, whatever its body raises stays in the task and the handler is not called.
\<close>

theorem detached_listener_failures:
  "py_truthy (as_task l) \<longrightarrow>
   (invoke env (callback l) (PDict msg # args l) (kwargs l) (event_listeners st) = (Raised e, reg1) \<longrightarrow>
      is_Exception e \<longrightarrow>
      handled (snd (run_listener env msg l st)) = handled st @ [e]) \<and>
   (invoke env (callback l) (PDict msg # args l) (kwargs l) (event_listeners st) =
        (Returned (Some cb), reg1) \<longrightarrow>
      is_coroutine cb \<longrightarrow>
      run_listener env msg l st =
        (None, st\<lparr>event_listeners := reg1, invoked := invoked st @ [l], tasks := tasks st @ [cb]\<rparr>) \<and>
      handled (snd (run_task cb (snd (run_listener env msg l st)))) = handled st)"
proof (intro impI conjI)
  assume "invoke env (callback l) (PDict msg # args l) (kwargs l) (event_listeners st) = (Raised e, reg1)"
    and "is_Exception e"
  then show "handled (snd (run_listener env msg l st)) = handled st @ [e]"
    by (simp add: run_listener_def on_exception_def split: prod.splits)
next
  assume detached: "py_truthy (as_task l)"
    and call: "invoke env (callback l) (PDict msg # args l) (kwargs l) (event_listeners st) =
        (Returned (Some cb), reg1)"
    and coro: "is_coroutine cb"
  then show scheduled: "run_listener env msg l st =
      (None, st\<lparr>event_listeners := reg1, invoked := invoked st @ [l], tasks := tasks st @ [cb]\<rparr>)"
    by (simp add: run_listener_def)
  show "handled (snd (run_task cb (snd (run_listener env msg l st)))) = handled st"
    unfolding scheduled by (simp add: run_task_def split: prod.splits)
qed

text \<open>
  The theorem for a detached listener whose call raises, and for one whose call returns
  a coroutine that will raise.
\<close>

theorem detached_listener_failures_witness:
  "py_truthy (as_task detached_listener) \<and>
   invoke failing_env (callback detached_listener) (PDict stasis_start # args detached_listener)
     (kwargs detached_listener) (event_listeners client0) = (Raised (UserException 3), []) \<and>
   is_Exception (UserException 3) \<and>
   handled (snd (run_listener failing_env stasis_start detached_listener client0)) =
     [UserException 3] \<and>
   invoke task_env (callback detached_listener) (PDict stasis_start # args detached_listener)
     (kwargs detached_listener) (event_listeners client0) = (Returned (Some failing_coroutine), []) \<and>
   is_coroutine failing_coroutine \<and>
   run_listener task_env stasis_start detached_listener client0 =
     (None, client0\<lparr>invoked := [detached_listener], tasks := [failing_coroutine]\<rparr>)"
  using detached_listener_failures [of detached_listener task_env stasis_start client0 _ _
      failing_coroutine]
    detached_listener_failures [of detached_listener failing_env stasis_start client0
      "UserException 3" "[]"]
  by (simp add: detached_listener_def task_env_def failing_env_def failing_coroutine_def
      client0_def)

text \<open>
  Claim C4 as stated fails: the coroutine of a detached listener raises once the task
  runs, and the failure handler has been handed nothing, neither by dispatch nor by the
  run of the task.
\<close>

theorem detached_task_error_not_handled:
  "fst (run_task failing_coroutine (snd (process_ws task_env stasis_start
     (client0\<lparr>event_listeners := [(''StasisStart'', [detached_listener])]\<rparr>)))) =
     Some (UserException 7) \<and>
   handled (snd (run_task failing_coroutine (snd (process_ws task_env stasis_start
     (client0\<lparr>event_listeners := [(''StasisStart'', [detached_listener])]\<rparr>))))) = [] \<and>
   tasks (snd (process_ws task_env stasis_start
     (client0\<lparr>event_listeners := [(''StasisStart'', [detached_listener])]\<rparr>))) = [failing_coroutine]"
  by (simp add: process_ws_def resolve_def get_listeners_def stasis_start_def run_listener_def
      detached_listener_def task_env_def failing_coroutine_def client0_def run_task_def)

section \<open>A \<^verbatim>\<open>ChannelDestroyed\<close> event without a channel\<close>

lemma gc_ident_no_channel:
  "map_of msg ''channel'' = None \<or> map_of msg ''channel'' = Some PNone \<Longrightarrow>
   gc_ident msg = Inl AttributeError"
  by (auto simp: gc_ident_def)

text \<open>
  Claim C10, as amended.  For a message of type \<^verbatim>\<open>ChannelDestroyed\<close> that has no
  \<^verbatim>\<open>channel\<close> field, or a null one, the garbage-collection pass raises
  \<^verbatim>\<open>AttributeError\<close> as soon as it meets a registration: when the listener loop has
  completed and the registry then holds at least one registration, of any event type, the
  error leaves \<^verbatim>\<open>process_ws\<close> with the registry as the listeners left it and ends the read
  loop.  On a registry without registrations the pass evaluates nothing and dispatch
  returns normally.
\<close>

theorem channel_destroyed_without_channel:
  assumes "map_of msg ''type'' = Some (PStr ''ChannelDestroyed'')"
    and "map_of msg ''channel'' = None \<or> map_of msg ''channel'' = Some PNone"
    and "run_listeners env msg
           (get_listeners (event_listeners st) ''ChannelDestroyed'' @
            get_listeners (event_listeners st) ''*'') st = (None, st1)"
    and "json_loads env data = Inr (PDict msg)"
  shows "process_ws env msg st =
           (if list_all (\<lambda>(i, l). l = []) (event_listeners st1) then None
            else Some AttributeError, st1) \<and>
         (\<not> list_all (\<lambda>(i, l). l = []) (event_listeners st1) \<longrightarrow>
            run_loop env (WSMessage WS_TEXT data extra # rest) st = (Escaped AttributeError, st1))"
proof -
  have "gc_ident msg = Inl AttributeError"
    using assms(2) by (rule gc_ident_no_channel)
  then have "gc_entries msg (event_listeners st1) =
      (if list_all (\<lambda>(i, l). l = []) (event_listeners st1) then None else Some AttributeError,
       event_listeners st1)"
    by (rule gc_entries_Inl)
  then have p: "process_ws env msg st =
      (if list_all (\<lambda>(i, l). l = []) (event_listeners st1) then None else Some AttributeError, st1)"
    using assms(1,3) by (simp add: process_ws_def resolve_def)
  then show ?thesis
    using assms(1,4) by simp
qed

text \<open>
  The theorem on a registry with one registration, for another event type: the frame
  ends the read loop and the frame after it is not read.
\<close>

theorem channel_destroyed_without_channel_witness:
  \<open>map_of [(''type'', PStr ''ChannelDestroyed'')] ''type'' = Some (PStr ''ChannelDestroyed'') \<and>
   map_of [(''type'', PStr ''ChannelDestroyed'')] ''channel'' = None \<and>
   json_loads quiet_env ''{"type": "ChannelDestroyed"}'' = Inr (PDict [(''type'', PStr ''ChannelDestroyed'')]) \<and>
   run_loop quiet_env [WSMessage WS_TEXT ''{"type": "ChannelDestroyed"}'' None, WSMessage WS_TEXT ''{}'' None]
     (client0\<lparr>event_listeners := [(''StasisEnd'', [obj_listener])]\<rparr>) =
     (Escaped AttributeError, client0\<lparr>event_listeners := [(''StasisEnd'', [obj_listener])]\<rparr>)\<close>
  using channel_destroyed_without_channel [of "[(''type'', PStr ''ChannelDestroyed'')]" quiet_env
      "client0\<lparr>event_listeners := [(''StasisEnd'', [obj_listener])]\<rparr>"
      "client0\<lparr>event_listeners := [(''StasisEnd'', [obj_listener])]\<rparr>"
      \<open>''{"type": "ChannelDestroyed"}''\<close> None "[WSMessage WS_TEXT ''{}'' None]"]
  by (simp add: get_listeners_def quiet_env_def obj_listener_def)

text \<open>
  Claim C10 as stated fails: with no listener registered, a \<^verbatim>\<open>ChannelDestroyed\<close>
  message without \<^verbatim>\<open>channel\<close> is dispatched without an error and the read loop goes on
  to the next frame.
\<close>

theorem channel_destroyed_without_channel_no_listeners:
  \<open>process_ws quiet_env [(''type'', PStr ''ChannelDestroyed'')] client0 = (None, client0) \<and>
   run_loop quiet_env [WSMessage WS_TEXT ''{"type": "ChannelDestroyed"}'' None] client0 =
     (Waiting, client0)\<close>
  by (simp add: process_ws_def resolve_def get_listeners_def quiet_env_def client0_def)

section \<open>Malformed frames\<close>

lemma log_invalid_event_raises:
  "log_invalid_event (WSMessage ty data extra) st = (Some TypeError, st)"
  by (simp add: log_invalid_event_def)

text \<open>
  A text frame whose payload parses to something that is not an object, or to an object
  without \<^verbatim>\<open>type\<close>, reaches the line that logs it, and the \<^verbatim>\<open>TypeError\<close> of that line
  ends the read loop: the frame is not logged and the frames after it are not read.
\<close>

lemma run_loop_invalid_event:
  assumes "json_loads env data = Inr v"
    and "(\<forall>msg. v \<noteq> PDict msg) \<or> (\<exists>msg. v = PDict msg \<and> map_of msg ''type'' = None)"
  shows "run_loop env (WSMessage WS_TEXT data extra # rest) st = (Escaped TypeError, st)"
  using assms by (cases v) (auto simp: log_invalid_event_raises)

text \<open>
  Claim C2 at its failing inputs.  A text frame holding a JSON array, and one holding an
  object without \<^verbatim>\<open>type\<close>, end the read loop with the \<^verbatim>\<open>TypeError\<close> that
  \<^verbatim>\<open>"Invalid event: %s" % msg\<close> raises on the three-item message tuple; a text frame
  that is not JSON ends it with the decoder's error.  In each case nothing is logged and
  the frame that follows is never read, where the claim has the frame logged and
  discarded and the loop going on.
\<close>

theorem run_loop_ends_at_invalid_event:
  "run_loop quiet_env [WSMessage WS_TEXT ''[]'' None, WSMessage WS_TEXT ''{}'' None] client0 =
     (Escaped TypeError, client0) \<and>
   run_loop quiet_env [WSMessage WS_TEXT ''{}'' None, WSMessage WS_TEXT ''[]'' None] client0 =
     (Escaped TypeError, client0) \<and>
   run_loop quiet_env [WSMessage WS_TEXT ''not json'' None, WSMessage WS_TEXT ''[]'' None] client0 =
     (Escaped JSONDecodeError, client0)"
  by (simp add: quiet_env_def log_invalid_event_def)

section \<open>Shutdown\<close>

lemma host_port_cases:
  "(case peername ws of None \<Rightarrow> True | Some info \<Rightarrow> 2 \<le> length info) \<Longrightarrow>
   host_port ws = Inl TypeError \<or> (\<exists>hp. host_port ws = Inr hp)"
  by (auto simp: host_port_def get_peer_info_def split: option.splits)

lemma close_sockets_all:
  "\<forall>ws\<in>set wss. close_raises ws = None \<and>
       (case peername ws of None \<Rightarrow> True | Some info \<Rightarrow> 2 \<le> length info) \<Longrightarrow>
   distinct wss \<Longrightarrow> distinct (websockets st) \<Longrightarrow> set wss \<subseteq> set (websockets st) \<Longrightarrow>
   close_sockets wss st =
     (None, st\<lparr>websockets := filter (\<lambda>w. w \<notin> set wss) (websockets st),
               closed := closed st @ map ws_id wss\<rparr>)"
proof (induction wss arbitrary: st)
  case Nil
  then show ?case by simp
next
  case (Cons ws wss)
  let ?st1 = "st\<lparr>websockets := remove1 ws (websockets st), closed := closed st @ [ws_id ws]\<rparr>"
  have rc: "remove_and_close ws st = (None, ?st1)"
    using Cons.prems by (simp add: remove_and_close_def)
  have step: "close_sockets (ws # wss) st = close_sockets wss ?st1"
    using host_port_cases [of ws] Cons.prems(1) rc by auto
  have rm: "remove1 ws (websockets st) = filter (\<lambda>w. w \<noteq> ws) (websockets st)"
    using Cons.prems(3) by (simp add: distinct_remove1_removeAll removeAll_filter_not_eq) metis
  have "close_sockets wss ?st1 =
      (None, ?st1\<lparr>websockets := filter (\<lambda>w. w \<notin> set wss) (websockets ?st1),
                  closed := closed ?st1 @ map ws_id wss\<rparr>)"
    using Cons.prems by (intro Cons.IH) auto
  then show ?case
    using step rm by (simp add: conj_commute)
qed

text \<open>
  Claim C3, as amended.  An exception deriving from \<^verbatim>\<open>Exception\<close> that the unsubscribe
  request raises is ignored, and so is the \<^verbatim>\<open>TypeError\<close> of a handle without peer
  address: when no \<^verbatim>\<open>close()\<close> of a tracked handle raises (and the peer address of a
  handle, if it has one, has at least two items), every tracked handle is removed from the
  tracked set and closed, and \<^verbatim>\<open>swagger.close()\<close> is called.  An error raised by the
  \<^verbatim>\<open>close()\<close> of a handle is not caught.
\<close>

theorem close_completes:
  assumes "case request_raises of None \<Rightarrow> True | Some e \<Rightarrow> is_Exception e"
    and "distinct (websockets st)"
    and "\<forall>ws\<in>set (websockets st). close_raises ws = None \<and>
           (case peername ws of None \<Rightarrow> True | Some info \<Rightarrow> 2 \<le> length info)"
  shows "close request_raises None st =
           (None, st\<lparr>websockets := [], closed := closed st @ map ws_id (websockets st),
                     swagger_closed := True\<rparr>)"
proof -
  have "close_sockets (websockets st) st =
      (None, st\<lparr>websockets := filter (\<lambda>w. w \<notin> set (websockets st)) (websockets st),
                closed := closed st @ map ws_id (websockets st)\<rparr>)"
    using assms(3,2,2) by (rule close_sockets_all) simp
  then show ?thesis
    using assms(1) by (simp add: close_def)
qed

text \<open>
  The theorem where the unsubscribe request fails and one of the two tracked handles has
  no peer address.
\<close>

theorem close_completes_witness:
  "(case Some (UserException 9) of None \<Rightarrow> True | Some e \<Rightarrow> is_Exception e) \<and>
   distinct [ws_no_peer, ws_ok] \<and>
   close (Some (UserException 9)) None (client0\<lparr>websockets := [ws_no_peer, ws_ok]\<rparr>) =
     (None, client0\<lparr>closed := [3, 2], swagger_closed := True\<rparr>)"
  using close_completes [of "Some (UserException 9)" "client0\<lparr>websockets := [ws_no_peer, ws_ok]\<rparr>"]
  by (simp add: ws_no_peer_def ws_ok_def client0_def)

text \<open>
  Claim C3 as stated fails: when the \<^verbatim>\<open>close()\<close> of the first of two tracked handles
  raises, the exception leaves \<^verbatim>\<open>close\<close>; the second handle is still tracked and not
  closed, and \<^verbatim>\<open>swagger.close()\<close> has not been called.
\<close>

theorem close_aborts_when_a_handle_fails:
  "close None None (client0\<lparr>websockets := [ws_failing, ws_ok]\<rparr>) =
     (Some (UserException 5), client0\<lparr>websockets := [ws_ok]\<rparr>) \<and>
   closed (client0\<lparr>websockets := [ws_ok]\<rparr>) = [] \<and>
   \<not> swagger_closed (client0\<lparr>websockets := [ws_ok]\<rparr>)"
  by (simp add: close_def host_port_def get_peer_info_def remove_and_close_def
      ws_failing_def ws_ok_def client0_def)

section \<open>Object extraction\<close>

lemma dict_set_fresh: "k \<notin> fst ` set d \<Longrightarrow> dict_set d k v = d @ [(k, v)]"
  by (induction d) auto

lemma comprehend_total:
  "\<forall>v. fac v = Inr (g v) \<Longrightarrow> distinct fs \<Longrightarrow> set fs \<inter> fst ` set acc = {} \<Longrightarrow>
   comprehend fac ev fs acc =
     Inr (acc @ List.map_filter
       (\<lambda>f. case map_of ev f of None \<Rightarrow> None
             | Some v \<Rightarrow> if py_truthy v then Some (f, g v) else None) fs)"
proof (induction fs arbitrary: acc)
  case Nil
  then show ?case by (simp add: List.map_filter_simps)
next
  case (Cons f fs)
  have fresh: "f \<notin> fst ` set acc" using Cons.prems(3) by auto
  have rest: "set fs \<inter> fst ` set (acc @ [(f, x)]) = {}" for x
    using Cons.prems(2,3) by auto
  show ?case
  proof (cases "map_of ev f")
    case None
    then show ?thesis
      using Cons.IH [of acc] Cons.prems by (simp add: List.map_filter_simps)
  next
    case (Some v)
    show ?thesis
    proof (cases "py_truthy v")
      case True
      have "comprehend fac ev (f # fs) acc = comprehend fac ev fs (acc @ [(f, g v)])"
        using Some True Cons.prems(1) fresh by (simp add: dict_set_fresh)
      then show ?thesis
        using Cons.IH [OF Cons.prems(1) _ rest, of "g v"] Cons.prems(2) Some True
        by (simp add: List.map_filter_simps)
    next
      case False
      then show ?thesis
        using Cons.IH [of acc] Cons.prems Some by (simp add: List.map_filter_simps)
    qed
  qed
qed

text \<open>
  Claim C6, as amended.  With a factory that does not fail, the extractor yields, for a
  schema with exactly one field of the target kind, the single object that the factory
  builds from that field's value, or \<^verbatim>\<open>None\<close> when the field is absent from the message
  or its value is false in Python's sense (null, \<^verbatim>\<open>false\<close>, \<^verbatim>\<open>0\<close>, an empty string,
  array or object), and never a mapping; for a schema with another number of such fields
  it always yields the mapping from field name to object over the fields that are present
  with a value that is true.  Which of the two it is depends on the schema only.
\<close>

theorem extract_objects_collapse:
  assumes "\<forall>v. factory_fn env fac v = Inr (g v)" and "distinct obj_fields"
  shows "extract_objects env fac obj_fields (PDict ev) =
           Inr (if length obj_fields = 1
                then Single (case map_of ev (hd obj_fields) of
                               None \<Rightarrow> None
                             | Some v \<Rightarrow> if py_truthy v then Some (g v) else None)
                else Mapping (List.map_filter
                       (\<lambda>f. case map_of ev f of
                               None \<Rightarrow> None
                             | Some v \<Rightarrow> if py_truthy v then Some (f, g v) else None)
                       obj_fields))"
proof -
  have c: "comprehend (factory_fn env fac) ev obj_fields [] =
      Inr ([] @ List.map_filter
        (\<lambda>f. case map_of ev f of None \<Rightarrow> None
              | Some v \<Rightarrow> if py_truthy v then Some (f, g v) else None) obj_fields)"
    using assms by (intro comprehend_total) simp_all
  show ?thesis
  proof (cases "length obj_fields = 1")
    case True
    then obtain f where f: "obj_fields = [f]"
      by (cases obj_fields) simp_all
    show ?thesis
      using c unfolding f
      by (simp add: extract_objects_def List.map_filter_simps split: option.splits)
  next
    case False
    then show ?thesis
      using c by (simp add: extract_objects_def)
  qed
qed

text \<open>
  The theorem on a message with one of the three channel fields of its event type, for
  the schema with the three fields and for a schema with one.
\<close>

theorem extract_objects_collapse_witness:
  "(\<forall>v. factory_fn wrapping_env 0 v = Inr (PTuple [PObj 0, v])) \<and>
   distinct [''channel'', ''replace_channel'', ''transferee''] \<and>
   extract_objects wrapping_env 0 [''channel'', ''replace_channel'', ''transferee'']
     (PDict transfer_one_channel) =
     Inr (Mapping [(''channel'', PTuple [PObj 0, PDict [(''id'', PStr ''42'')]])]) \<and>
   extract_objects wrapping_env 0 [''channel''] (PDict transfer_one_channel) =
     Inr (Single (Some (PTuple [PObj 0, PDict [(''id'', PStr ''42'')]])))"
  using extract_objects_collapse [of wrapping_env 0 "\<lambda>v. PTuple [PObj 0, v]"
      "[''channel'', ''replace_channel'', ''transferee'']" transfer_one_channel]
    extract_objects_collapse [of wrapping_env 0 "\<lambda>v. PTuple [PObj 0, v]"
      "[''channel'']" transfer_one_channel]
  by (simp add: wrapping_env_def transfer_one_channel_def List.map_filter_simps)

text \<open>
  Claim C6 as stated fails: the only field of the target kind is present in the message
  and not null (it is an empty object), the factory would build an object from it, and
  the extractor yields \<^verbatim>\<open>None\<close>.
\<close>

theorem extract_objects_drops_empty_object:
  "map_of talking_empty_channel ''channel'' = Some (PDict []) \<and>
   factory_fn wrapping_env 0 (PDict []) = Inr (PTuple [PObj 0, PDict []]) \<and>
   extract_objects wrapping_env 0 [''channel''] (PDict talking_empty_channel) = Inr (Single None)"
  by (simp add: talking_empty_channel_def wrapping_env_def extract_objects_def)

section \<open>Registration\<close>

lemma tuple_eq_callback: "tuple_eq a b \<Longrightarrow> callback a = callback b"
  by (cases a; cases b) (simp add: tuple_eq_def)

lemma list_remove_nth_distinct:
  "distinct (map callback l) \<Longrightarrow> i < length l \<Longrightarrow>
   list_remove (l ! i) l = Inr (take i l @ drop (Suc i) l)"
proof (induction l arbitrary: i)
  case Nil
  then show ?case by simp
next
  case (Cons a l)
  show ?case
  proof (cases i)
    case 0
    then show ?thesis by (simp add: tuple_eq_refl)
  next
    case (Suc j)
    then have j: "j < length l" using Cons.prems(2) by simp
    then have "callback (l ! j) \<in> callback ` set l" by simp
    then have "callback a \<noteq> callback (l ! j)"
      using Cons.prems(1) by auto
    then have "\<not> tuple_eq a (l ! j)"
      using tuple_eq_callback by blast
    then show ?thesis
      using Suc Cons.IH [OF _ j] Cons.prems(1) by simp
  qed
qed

lemma on_event_scan_no_match:
  "\<forall>k. i \<le> k \<and> k < length l \<longrightarrow> callback (l ! k) \<noteq> cb \<Longrightarrow> on_event_scan cb i l = Inr l"
proof (induction "length l - i" arbitrary: i)
  case 0
  then show ?case by (subst on_event_scan.simps) simp
next
  case (Suc n)
  then have "i < length l" "callback (l ! i) \<noteq> cb" by auto
  moreover have "on_event_scan cb (Suc i) l = Inr l"
    using Suc.hyps(2) Suc.prems by (intro Suc.hyps(1)) auto
  ultimately show ?case by (subst on_event_scan.simps) auto
qed

lemma on_event_scan_distinct:
  assumes d: "distinct (map callback l)"
  shows "\<forall>k<i. callback (l ! k) \<noteq> cb \<Longrightarrow>
         on_event_scan cb i l = Inr (filter (\<lambda>r. callback r \<noteq> cb) l)"
proof (induction "length l - i" arbitrary: i)
  case 0
  have "callback r \<noteq> cb" if "r \<in> set l" for r
  proof -
    from that obtain k where k: "k < length l" "l ! k = r"
      by (auto simp: in_set_conv_nth)
    then have "k < i" using 0 by simp
    then show ?thesis using "0.prems" k(2) by blast
  qed
  then have "filter (\<lambda>r. callback r \<noteq> cb) l = l"
    by (simp add: filter_id_conv)
  moreover have "\<not> i < length l" using 0 by simp
  ultimately show ?case by (subst on_event_scan.simps) simp
next
  case (Suc n)
  then have i: "i < length l" by simp
  show ?case
  proof (cases "callback (l ! i) = cb")
    case True
    let ?l' = "take i l @ drop (Suc i) l"
    have split: "l = take i l @ l ! i # drop (Suc i) l"
      using i by (rule id_take_nth_drop)
    have "distinct (map callback (take i l @ l ! i # drop (Suc i) l))"
      using d split by simp
    then have notin: "cb \<notin> callback ` set ?l'"
      using True by auto
    have others: "\<forall>r\<in>set ?l'. callback r \<noteq> cb"
    proof
      fix r
      assume "r \<in> set ?l'"
      then have "callback r \<in> callback ` set ?l'" by (rule imageI)
      with notin show "callback r \<noteq> cb" by metis
    qed
    have rm: "list_remove (l ! i) l = Inr ?l'"
      using d i by (rule list_remove_nth_distinct)
    have scan: "on_event_scan cb (Suc i) ?l' = Inr ?l'"
      using others by (intro on_event_scan_no_match) (metis nth_mem)
    have "filter (\<lambda>r. callback r \<noteq> cb) (take i l @ l ! i # drop (Suc i) l) = ?l'"
      using others True by (simp add: filter_id_conv)
    then have "filter (\<lambda>r. callback r \<noteq> cb) l = ?l'"
      using split by simp
    then show ?thesis
      using i True rm scan by (subst on_event_scan.simps) simp
  next
    case False
    have "on_event_scan cb (Suc i) l = Inr (filter (\<lambda>r. callback r \<noteq> cb) l)"
      using Suc.hyps(2) Suc.prems False by (intro Suc.hyps(1)) (auto simp: less_Suc_eq)
    then show ?thesis
      using i False by (subst on_event_scan.simps) auto
  qed
qed

lemma on_event_under_invariant:
  assumes "distinct (map callback (get_listeners (event_listeners st) T))"
  shows "on_event st T cb eo task a kw =
           Inr (st\<lparr>event_listeners := dict_set (event_listeners st) T
                  (filter (\<lambda>r. callback r \<noteq> cb) (get_listeners (event_listeners st) T) @
                   [Listener cb eo a kw task])\<rparr>)"
proof -
  have "on_event_scan cb 0 (get_listeners (event_listeners st) T) =
      Inr (filter (\<lambda>r. callback r \<noteq> cb) (get_listeners (event_listeners st) T))"
    using assms by (intro on_event_scan_distinct) simp_all
  then show ?thesis by (simp add: on_event_def)
qed

lemma get_listeners_map_filter:
  "get_listeners (map (\<lambda>(i, l). (i, filter P l)) reg) T = filter P (get_listeners reg T)"
  by (induction reg) (auto simp: get_listeners_def)

lemma gc_entries_filters:
  assumes "gc_entries msg reg = (r, reg')"
  shows "\<exists>P. \<forall>T. get_listeners reg' T = filter P (get_listeners reg T)"
proof (cases "gc_ident msg")
  case (Inl e)
  then have "reg' = reg" using assms gc_entries_Inl [of msg e reg] by simp
  then have "\<forall>T. get_listeners reg' T = filter (\<lambda>item. True) (get_listeners reg T)" by simp
  then show ?thesis by blast
next
  case (Inr v)
  then have "reg' = map (\<lambda>(i, l). (i, filter (\<lambda>item. \<not> py_in v item) l)) reg"
    using assms gc_entries_Inr [of msg v reg] by simp
  then have "\<forall>T. get_listeners reg' T = filter (\<lambda>item. \<not> py_in v item) (get_listeners reg T)"
    by (simp add: get_listeners_map_filter)
  then show ?thesis by blast
qed

text \<open>
  Every registry that registrations and garbage-collection passes build from the empty
  one holds at most one registration for each callback in the list of each event type.
\<close>

lemma built_distinct:
  "built st \<Longrightarrow> distinct (map callback (get_listeners (event_listeners st) T))"
proof (induction arbitrary: T rule: built.induct)
  case (init st)
  then show ?case by (simp add: get_listeners_def)
next
  case (registered st T' cb eo task a kw st')
  have "st' = st\<lparr>event_listeners := dict_set (event_listeners st) T'
      (filter (\<lambda>r. callback r \<noteq> cb) (get_listeners (event_listeners st) T') @
       [Listener cb eo a kw task])\<rparr>"
    using on_event_under_invariant [OF registered.IH [of T'], of cb eo task a kw] registered.hyps(2)
    by simp
  then show ?case
    using registered.IH [of T] registered.IH [of T']
    by (auto simp: get_listeners_dict_set distinct_map_filter)
next
  case (collected st msg r reg)
  from gc_entries_filters [OF collected.hyps(2)] obtain P
    where "\<forall>T. get_listeners reg T = filter P (get_listeners (event_listeners st) T)" by blast
  then show ?case
    using collected.IH [of T] by (simp add: distinct_map_filter)
qed

text \<open>
  Claim C7.  In a registry where the list of event type \<open>T\<close> holds at most one
  registration for each callback, as in every registry that registrations build,
  \<^verbatim>\<open>on_event\<close> for \<open>T\<close> with callback \<open>cb\<close> removes the registration of \<open>cb\<close>, if there
  is one, keeps the others in their order and appends the new registration: the list of
  \<open>T\<close> then holds exactly one registration for \<open>cb\<close>, which is the new one and is last,
  it still holds at most one registration for each callback, and the list of every other
  event type is unchanged.
\<close>

theorem on_event_replaces_registration:
  assumes "distinct (map callback (get_listeners (event_listeners st) T))"
  shows "\<exists>st'. on_event st T cb eo task a kw = Inr st' \<and>
           get_listeners (event_listeners st') T =
             filter (\<lambda>r. callback r \<noteq> cb) (get_listeners (event_listeners st) T) @
             [Listener cb eo a kw task] \<and>
           filter (\<lambda>r. callback r = cb) (get_listeners (event_listeners st') T) =
             [Listener cb eo a kw task] \<and>
           last (get_listeners (event_listeners st') T) = Listener cb eo a kw task \<and>
           distinct (map callback (get_listeners (event_listeners st') T)) \<and>
           (\<forall>T'. T' \<noteq> T \<longrightarrow>
              get_listeners (event_listeners st') T' = get_listeners (event_listeners st) T')"
proof -
  let ?l = "get_listeners (event_listeners st) T"
  let ?new = "filter (\<lambda>r. callback r \<noteq> cb) ?l @ [Listener cb eo a kw task]"
  have res: "on_event st T cb eo task a kw =
      Inr (st\<lparr>event_listeners := dict_set (event_listeners st) T ?new\<rparr>)"
    using assms by (rule on_event_under_invariant)
  have one: "filter (\<lambda>r. callback r = cb) ?new = [Listener cb eo a kw task]"
    by (simp add: filter_empty_conv)
  have dist: "distinct (map callback ?new)"
    using assms by (auto simp: distinct_map_filter)
  show ?thesis
    using res one dist by (simp add: get_listeners_dict_set)
qed

text \<open>
  The theorem where the callback of the first of two registrations is registered again.
\<close>

theorem on_event_replaces_registration_witness:
  "distinct (map callback [first_listener, second_listener]) \<and>
   (\<exists>st'. on_event
        (client0\<lparr>event_listeners := [(''StasisStart'', [first_listener, second_listener])]\<rparr>)
        ''StasisStart'' (PyFunc 0) (PStr ''42'') (PBool False) [] [] = Inr st' \<and>
      get_listeners (event_listeners st') ''StasisStart'' =
        [second_listener, Listener (PyFunc 0) (PStr ''42'') [] [] (PBool False)])"
  using on_event_replaces_registration
    [of "client0\<lparr>event_listeners := [(''StasisStart'', [first_listener, second_listener])]\<rparr>"
      "''StasisStart''" "PyFunc 0" "PStr ''42''" "PBool False" "[]" "[]"]
  by (simp add: get_listeners_def first_listener_def second_listener_def) blast

lemma on_event_Inr: "\<exists>st'. on_event st T cb eo task a kw = Inr st'"
  using on_event_scan_Inr [of cb 0 "get_listeners (event_listeners st) T"]
  by (auto simp: on_event_def)

lemma on_object_event_ValueError_iff:
  "on_object_event st T cb fac model_id task a kw = Inl ValueError \<longleftrightarrow>
     (case map_of (event_models st) T of
        None \<Rightarrow> True
      | Some properties \<Rightarrow> \<forall>(k, v)\<in>set properties. v \<noteq> model_id)"
proof (cases "map_of (event_models st) T")
  case None
  then show ?thesis by (simp add: on_object_event_def)
next
  case (Some properties)
  have bind: "bind_on_event a kw \<noteq> Inl ValueError"
    by (auto simp: bind_on_event_def split: list.splits)
  have ev: "on_event st' T c eo task a' kw' \<noteq> Inl e" for st' c eo a' kw' e
    using on_event_Inr [of st' T c eo task a' kw'] by auto
  show ?thesis
    using Some bind ev
    by (auto simp: on_object_event_def Let_def filter_empty_conv split: sum.splits)
qed

text \<open>
  Claim C9 at an event type that the schema knows, with a field of the target kind, and
  two extra positional arguments: no registration is made and \<^verbatim>\<open>TypeError\<close> is raised,
  since the call of \<^verbatim>\<open>on_event\<close> gives \<^verbatim>\<open>as_task\<close> both by position and by keyword.
\<close>

theorem on_object_event_two_extra_arguments:
  "map_of (event_models schema_client) ''StasisStart'' =
     Some [(''type'', ''string''), (''args'', ''List[string]''), (''channel'', ''Channel'')] \<and>
   on_object_event schema_client ''StasisStart'' (PyFunc 0) 0 ''Channel'' (PBool False)
     [PStr ''a'', PStr ''b''] [] = Inl TypeError \<and>
   (\<exists>st'. on_object_event schema_client ''StasisStart'' (PyFunc 0) 0 ''Channel'' (PBool False)
      [] [] =
      Inr st')"
proof -
  have "\<exists>st'. on_event (schema_client\<lparr>closures := Suc (closures schema_client)\<rparr>) ''StasisStart''
      (ExtractObjects (closures schema_client) (PyFunc 0) 0 [''channel'']) PNone (PBool False)
      [] [] = Inr st'"
    by (rule on_event_Inr)
  then show ?thesis
    by (simp add: on_object_event_def bind_on_event_def schema_client_def client0_def)
qed
end
